theory Spec2Isabelle
  imports Main "HOL-Library.Word"
begin

section \<open>JavaScript values used by \<^verbatim>\<open>AppContext.jsx\<close>\<close>

text \<open>
  A JavaScript string is a sequence of 16-bit code units. String literals of the source
  are written with \<open>js\<close>, which maps an ASCII literal to its code units.
\<close>

type_synonym jschar = "16 word"
type_synonym jstring = "jschar list"

definition js :: "string \<Rightarrow> jstring" where
  "js s = map (\<lambda>c. of_nat (of_char c)) s"

text \<open>The exceptions the source can raise: both are uncaught there and abort the caller.\<close>

datatype js_error = URIError | TypeError

definition map_result :: "('a \<Rightarrow> 'b) \<Rightarrow> js_error + 'a \<Rightarrow> js_error + 'b" where
  "map_result f r = (case r of Inl e \<Rightarrow> Inl e | Inr x \<Rightarrow> Inr (f x))"

definition bind_result :: "js_error + 'a \<Rightarrow> ('a \<Rightarrow> js_error + 'b) \<Rightarrow> js_error + 'b" where
  "bind_result r f = (case r of Inl e \<Rightarrow> Inl e | Inr x \<Rightarrow> f x)"

text \<open>
  The values a view parameter can hold: a string, or \<open>undefined\<close> (what reading a
  missing array element or a missing property gives).
\<close>

datatype jsval = JUndefined | JString jstring

definition truthy :: "jsval \<Rightarrow> bool" where
  "truthy v = (case v of JUndefined \<Rightarrow> False | JString s \<Rightarrow> s \<noteq> [])"

definition toString :: "jsval \<Rightarrow> jstring" where
  "toString v = (case v of JUndefined \<Rightarrow> js ''undefined'' | JString s \<Rightarrow> s)"

section \<open>The built-ins \<^verbatim>\<open>encodeURIComponent\<close> and \<^verbatim>\<open>decodeURIComponent\<close>\<close>

text \<open>
  Both follow the ECMAScript operations Encode and Decode. The characters that
  \<^verbatim>\<open>encodeURIComponent\<close> leaves as they are: letters, digits and \<^verbatim>\<open>- _ . ! ~ * ' ( )\<close>.
\<close>

definition uriUnescaped :: "jschar \<Rightarrow> bool" where
  "uriUnescaped c \<longleftrightarrow>
     (0x41 \<le> c \<and> c \<le> 0x5A) \<or> (0x61 \<le> c \<and> c \<le> 0x7A) \<or> (0x30 \<le> c \<and> c \<le> 0x39) \<or>
     c = 0x2D \<or> c = 0x5F \<or> c = 0x2E \<or> c = 0x21 \<or> c = 0x7E \<or> c = 0x2A \<or>
     c = 0x27 \<or> c = 0x28 \<or> c = 0x29"

definition isLeadingSurrogate :: "jschar \<Rightarrow> bool" where
  "isLeadingSurrogate c \<longleftrightarrow> 0xD800 \<le> c \<and> c \<le> 0xDBFF"

definition isTrailingSurrogate :: "jschar \<Rightarrow> bool" where
  "isTrailingSurrogate c \<longleftrightarrow> 0xDC00 \<le> c \<and> c \<le> 0xDFFF"

definition surrogatePairToCodePoint :: "jschar \<Rightarrow> jschar \<Rightarrow> nat" where
  "surrogatePairToCodePoint lead trail =
     (unat lead - 0xD800) * 0x400 + (unat trail - 0xDC00) + 0x10000"

definition utf8Encode :: "nat \<Rightarrow> nat list" where
  "utf8Encode cp =
     (if cp < 0x80 then [cp]
      else if cp < 0x800 then [0xC0 + cp div 0x40, 0x80 + cp mod 0x40]
      else if cp < 0x10000 then
        [0xE0 + cp div 0x1000, 0x80 + cp div 0x40 mod 0x40, 0x80 + cp mod 0x40]
      else [0xF0 + cp div 0x40000, 0x80 + cp div 0x1000 mod 0x40,
            0x80 + cp div 0x40 mod 0x40, 0x80 + cp mod 0x40])"

definition hexDigit :: "nat \<Rightarrow> jschar" where
  "hexDigit d = (if d < 10 then of_nat (0x30 + d) else of_nat (0x37 + d))"

definition percentEscape :: "nat \<Rightarrow> jstring" where
  "percentEscape b = [0x25, hexDigit (b div 16), hexDigit (b mod 16)]"

definition escapeCodePoint :: "nat \<Rightarrow> jstring" where
  "escapeCodePoint cp = concat (map percentEscape (utf8Encode cp))"

fun uriEncode :: "jstring \<Rightarrow> js_error + jstring" where
  "uriEncode [] = Inr []"
| "uriEncode (c # cs) =
     (if uriUnescaped c then map_result ((#) c) (uriEncode cs)
      else if isTrailingSurrogate c then Inl URIError
      else if isLeadingSurrogate c then
        (case cs of
           [] \<Rightarrow> Inl URIError
         | d # ds \<Rightarrow>
             if isTrailingSurrogate d
             then map_result ((@) (escapeCodePoint (surrogatePairToCodePoint c d))) (uriEncode ds)
             else Inl URIError)
      else map_result ((@) (escapeCodePoint (unat c))) (uriEncode cs))"

definition encodeURIComponent :: "jsval \<Rightarrow> js_error + jstring" where
  "encodeURIComponent v = uriEncode (toString v)"

definition hexValue :: "jschar \<Rightarrow> nat option" where
  "hexValue c =
     (if 0x30 \<le> c \<and> c \<le> 0x39 then Some (unat c - 0x30)
      else if 0x41 \<le> c \<and> c \<le> 0x46 then Some (unat c - 0x37)
      else if 0x61 \<le> c \<and> c \<le> 0x66 then Some (unat c - 0x57)
      else None)"

fun takeEscape :: "jstring \<Rightarrow> (nat \<times> jstring) option" where
  "takeEscape (p # h # l # rest) =
     (if p = 0x25 then
        (case hexValue h of
           None \<Rightarrow> None
         | Some a \<Rightarrow> (case hexValue l of None \<Rightarrow> None | Some b \<Rightarrow> Some (16 * a + b, rest)))
      else None)"
| "takeEscape _ = None"

fun takeEscapes :: "nat \<Rightarrow> jstring \<Rightarrow> (nat list \<times> jstring) option" where
  "takeEscapes 0 s = Some ([], s)"
| "takeEscapes (Suc n) s =
     (case takeEscape s of
        None \<Rightarrow> None
      | Some (b, rest) \<Rightarrow>
          (case takeEscapes n rest of
             None \<Rightarrow> None
           | Some (bs, rest') \<Rightarrow> Some (b # bs, rest')))"

definition leadingOnes :: "nat \<Rightarrow> nat" where
  "leadingOnes b =
     (if b < 0x80 then 0 else if b < 0xC0 then 1 else if b < 0xE0 then 2
      else if b < 0xF0 then 3 else if b < 0xF8 then 4 else 5)"

definition isContinuation :: "nat \<Rightarrow> bool" where
  "isContinuation b \<longleftrightarrow> 0x80 \<le> b \<and> b < 0xC0"

text \<open>
  The code point of a well-formed UTF-8 sequence of two to four octets: continuation
  octets are \<open>10xxxxxx\<close>, the value is not over-long, not a surrogate and at most
  \<open>0x10FFFF\<close>.
\<close>

fun utf8Decode :: "nat list \<Rightarrow> nat option" where
  "utf8Decode [b0, b1] =
     (let v = (b0 - 0xC0) * 0x40 + (b1 - 0x80)
      in if isContinuation b1 \<and> 0x80 \<le> v then Some v else None)"
| "utf8Decode [b0, b1, b2] =
     (let v = (b0 - 0xE0) * 0x1000 + (b1 - 0x80) * 0x40 + (b2 - 0x80)
      in if isContinuation b1 \<and> isContinuation b2 \<and> 0x800 \<le> v \<and> (v < 0xD800 \<or> 0xDFFF < v)
         then Some v else None)"
| "utf8Decode [b0, b1, b2, b3] =
     (let v = (b0 - 0xF0) * 0x40000 + (b1 - 0x80) * 0x1000 + (b2 - 0x80) * 0x40 + (b3 - 0x80)
      in if isContinuation b1 \<and> isContinuation b2 \<and> isContinuation b3 \<and>
            0x10000 \<le> v \<and> v \<le> 0x10FFFF
         then Some v else None)"
| "utf8Decode _ = None"

definition utf16Encode :: "nat \<Rightarrow> jstring" where
  "utf16Encode v =
     (if v < 0x10000 then [of_nat v]
      else [of_nat (0xD800 + (v - 0x10000) div 0x400), of_nat (0xDC00 + (v - 0x10000) mod 0x400)])"

lemma takeEscape_length: "takeEscape s = Some (b, rest) \<Longrightarrow> length rest < length s"
  by (induction s rule: takeEscape.induct) (auto split: if_splits option.splits)

lemma takeEscapes_length: "takeEscapes n s = Some (bs, rest) \<Longrightarrow> length rest \<le> length s"
proof (induction n arbitrary: s bs rest)
  case 0
  then show ?case by simp
next
  case (Suc n)
  then show ?case
    by (fastforce split: option.splits prod.splits dest: takeEscape_length)
qed

function uriDecode :: "jstring \<Rightarrow> js_error + jstring" where
  "uriDecode [] = Inr []"
| "uriDecode (c # cs) =
     (if c \<noteq> 0x25 then map_result ((#) c) (uriDecode cs)
      else
        (case takeEscape (c # cs) of
           None \<Rightarrow> Inl URIError
         | Some (b, rest) \<Rightarrow>
             if leadingOnes b = 0 then map_result ((#) (of_nat b)) (uriDecode rest)
             else if leadingOnes b = 1 \<or> 4 < leadingOnes b then Inl URIError
             else
               (case takeEscapes (leadingOnes b - 1) rest of
                  None \<Rightarrow> Inl URIError
                | Some (bs, rest') \<Rightarrow>
                    (case utf8Decode (b # bs) of
                       None \<Rightarrow> Inl URIError
                     | Some v \<Rightarrow> map_result ((@) (utf16Encode v)) (uriDecode rest')))))"
  by pat_completeness auto
termination
proof (relation "measure length")
  show "wf (measure length)" by simp
next
  fix c :: jschar and cs :: jstring
  show "(cs, c # cs) \<in> measure length" by simp
next
  fix c :: jschar and cs x2 b rest
  assume "takeEscape (c # cs) = Some x2" "(b, rest) = x2"
  then show "(rest, c # cs) \<in> measure length"
    using takeEscape_length[of "c # cs" b rest] by simp
next
  fix c :: jschar and cs x2 b rest x2a bs rest' x2b
  assume "takeEscape (c # cs) = Some x2" "(b, rest) = x2"
    "takeEscapes (leadingOnes b - 1) rest = Some x2a" "(bs, rest') = x2a"
  then show "(rest', c # cs) \<in> measure length"
    using takeEscape_length[of "c # cs" b rest] takeEscapes_length[of "leadingOnes b - 1" rest bs rest']
    by simp
qed

definition decodeURIComponent :: "jstring \<Rightarrow> js_error + jstring" where
  "decodeURIComponent s = uriDecode s"

text \<open>\<^verbatim>\<open>String.prototype.isWellFormed\<close>: no surrogate stands alone.\<close>

fun isWellFormed :: "jstring \<Rightarrow> bool" where
  "isWellFormed [] = True"
| "isWellFormed (c # cs) =
     (if isTrailingSurrogate c then False
      else if isLeadingSurrogate c then
        (case cs of [] \<Rightarrow> False | d # ds \<Rightarrow> isTrailingSurrogate d \<and> isWellFormed ds)
      else isWellFormed cs)"

section \<open>Objects used as dictionaries\<close>

text \<open>
  An object that the source uses as a dictionary is modelled by the list of its own
  properties in creation order; its prototype is \<^verbatim>\<open>Object.prototype\<close>. The values are
  strings or \<open>undefined\<close>.
\<close>

type_synonym obj = "(jstring \<times> jsval) list"

text \<open>
  \<^verbatim>\<open>ob[k]\<close>. The source reads such an object under one of its own keys, or under one of
  the names \<^verbatim>\<open>t, k, v, id, tt, cc, inc\<close>, none of which \<^verbatim>\<open>Object.prototype\<close> defines:
  a key that is not an own key reads as \<open>undefined\<close>.
\<close>

definition getProp :: "obj \<Rightarrow> jstring \<Rightarrow> jsval" where
  "getProp ob k = (case map_of ob k of None \<Rightarrow> JUndefined | Some v \<Rightarrow> v)"

text \<open>
  \<^verbatim>\<open>ob[k] = v\<close>: an own property keeps its place and takes the value; a new property is
  created last. Under the name \<^verbatim>\<open>__proto__\<close> no property is created: the assignment
  runs the setter that \<^verbatim>\<open>Object.prototype\<close> defines for this name, which does nothing
  with a value that is neither an object nor \<^verbatim>\<open>null\<close>.
\<close>

fun setProp :: "jstring \<Rightarrow> jsval \<Rightarrow> obj \<Rightarrow> obj" where
  "setProp k v [] = (if k = js ''__proto__'' then [] else [(k, v)])"
| "setProp k v (p # ps) = (if fst p = k then (k, v) # ps else p # setProp k v ps)"

definition deleteProp :: "jstring \<Rightarrow> obj \<Rightarrow> obj" where
  "deleteProp k ob = filter (\<lambda>p. fst p \<noteq> k) ob"

text \<open>
  \<^verbatim>\<open>Object.keys\<close> lists the keys that are array indices (canonical decimal numerals
  below \<open>2^32 - 1\<close>) first, in ascending numeric order, then the other keys in creation
  order.
\<close>

definition decimalValue :: "jstring \<Rightarrow> nat" where
  "decimalValue s = foldl (\<lambda>n c. 10 * n + (unat c - 0x30)) 0 s"

definition arrayIndex :: "jstring \<Rightarrow> nat option" where
  "arrayIndex s =
     (if s \<noteq> [] \<and> list_all (\<lambda>c. 0x30 \<le> c \<and> c \<le> 0x39) s \<and> (s = [0x30] \<or> hd s \<noteq> 0x30) \<and>
         decimalValue s \<le> 4294967294
      then Some (decimalValue s) else None)"

definition objectKeys :: "obj \<Rightarrow> jstring list" where
  "objectKeys ob =
     map snd (sort_key fst
       (List.map_filter (\<lambda>k. map_option (\<lambda>n. (n, k)) (arrayIndex k)) (map fst ob))) @
     filter (\<lambda>k. arrayIndex k = None) (map fst ob)"

section \<open>String helpers: \<^verbatim>\<open>split\<close> and \<^verbatim>\<open>join\<close>\<close>

text \<open>\<^verbatim>\<open>str.split(sep)\<close> for a one-character separator: the result is never empty.\<close>

fun splitOn :: "jschar \<Rightarrow> jstring \<Rightarrow> jstring list" where
  "splitOn sep [] = [[]]"
| "splitOn sep (c # cs) =
     (if c = sep then [] # splitOn sep cs
      else (case splitOn sep cs of [] \<Rightarrow> [[c]] | p # ps \<Rightarrow> (c # p) # ps))"

fun joinWith :: "jstring \<Rightarrow> jstring list \<Rightarrow> jstring" where
  "joinWith sep [] = []"
| "joinWith sep [x] = x"
| "joinWith sep (x # y # ys) = x @ sep @ joinWith sep (y # ys)"

text \<open>Reading an array element: \<open>undefined\<close> past the end.\<close>

definition element :: "jstring list \<Rightarrow> nat \<Rightarrow> jsval" where
  "element xs i = (if i < length xs then JString (xs ! i) else JUndefined)"

section \<open>The query-string codec: \<^verbatim>\<open>stringQs\<close> and \<^verbatim>\<open>qsString\<close>\<close>

fun reduce_result :: "('b \<Rightarrow> 'a \<Rightarrow> js_error + 'b) \<Rightarrow> 'a list \<Rightarrow> 'b \<Rightarrow> js_error + 'b" where
  "reduce_result f [] acc = Inr acc"
| "reduce_result f (x # xs) acc = bind_result (f acc x) (reduce_result f xs)"

fun map_results :: "('a \<Rightarrow> js_error + 'b) \<Rightarrow> 'a list \<Rightarrow> js_error + 'b list" where
  "map_results f [] = Inr []"
| "map_results f (x # xs) =
     bind_result (f x) (\<lambda>y. map_result ((#) y) (map_results f xs))"

text \<open>
  The callback of \<^verbatim>\<open>reduce\<close> in \<^verbatim>\<open>stringQs\<close>. The parts of a split are strings, never
  \<^verbatim>\<open>null\<close>, so the value always goes through \<^verbatim>\<open>decodeURIComponent\<close>; the key is stored
  as it stands.
\<close>

definition stringQs_pair :: "obj \<Rightarrow> jstring \<Rightarrow> js_error + obj" where
  "stringQs_pair ob pair =
     (let parts = splitOn 0x3D pair
      in if length parts = 2
         then map_result (\<lambda>v. setProp (parts ! 0) (JString v) ob) (decodeURIComponent (parts ! 1))
         else Inr ob)"

definition stringQs :: "jstring \<Rightarrow> js_error + obj" where
  "stringQs str =
     (let str' = dropWhile (\<lambda>c. c = 0x3F \<or> c = 0x23) str
      in reduce_result stringQs_pair (splitOn 0x26 str') [])"

definition qsString_pair :: "obj \<Rightarrow> jstring \<Rightarrow> js_error + jstring" where
  "qsString_pair ob key =
     bind_result (encodeURIComponent (JString key)) (\<lambda>k.
     bind_result (encodeURIComponent (getProp ob key)) (\<lambda>v.
     Inr (k @ js ''='' @ v)))"

definition qsString :: "obj \<Rightarrow> js_error + jstring" where
  "qsString ob = map_result (joinWith (js ''&'')) (map_results (qsString_pair ob) (objectKeys ob))"

text \<open>
  Helpers to state properties of the codec: the result of \<^verbatim>\<open>encodeURIComponent\<close> on a
  string (empty where it raises); objects all of whose keys and values can be encoded; a
  parameter map, from string keys to string values, as an object; and the segments of a
  query string that \<^verbatim>\<open>stringQs\<close> accepts, those with exactly one \<^verbatim>\<open>=\<close>.
\<close>

definition encoded :: "jstring \<Rightarrow> jstring" where
  "encoded s = (case uriEncode s of Inl e \<Rightarrow> [] | Inr e \<Rightarrow> e)"

definition wellFormedObj :: "obj \<Rightarrow> bool" where
  "wellFormedObj ob = list_all (\<lambda>p. isWellFormed (fst p) \<and> isWellFormed (toString (snd p))) ob"

definition paramsOf :: "(jstring \<times> jstring) list \<Rightarrow> obj" where
  "paramsOf p = map (\<lambda>e. (fst e, JString (snd e))) p"

definition keyValueSegment :: "jstring list \<Rightarrow> jstring \<Rightarrow> jstring \<Rightarrow> bool" where
  "keyValueSegment segs k v \<longleftrightarrow> k @ 0x3D # v \<in> set segs \<and> 0x3D \<notin> set k \<and> 0x3D \<notin> set v"

section \<open>The dataset loaders: \<^verbatim>\<open>useFetch\<close>, \<^verbatim>\<open>useNsi\<close>, \<^verbatim>\<open>useTaginfo\<close>\<close>

text \<open>
  What \<^verbatim>\<open>await fetch(url)\<close> followed by \<^verbatim>\<open>await response.json()\<close> comes to: the
  first promise rejects, the second one rejects, or the body parses to a value. A rejected
  promise ends \<^verbatim>\<open>fetchUrl\<close> there: nothing catches it and no later statement runs.
\<close>

datatype 'j response = FetchRejected | JsonRejected | Json 'j

text \<open>
  What a loader reads from the parsed body before it walks it. The body is \<open>Missing\<close>
  when reading raises a \<^verbatim>\<open>TypeError\<close>: the body is \<^verbatim>\<open>null\<close>, or it holds
  \<^verbatim>\<open>null\<close> or nothing under the property that the loader walks (\<^verbatim>\<open>nsi\<close> for the name
  index; \<^verbatim>\<open>tags\<close> for the icons, where a value that cannot be iterated counts too).
\<close>

datatype 'j body = Missing | Present 'j

text \<open>The two \<^verbatim>\<open>useState\<close> cells of a loader.\<close>

record 'd hook =
  data :: 'd
  loading :: bool

datatype 'j fetched = InitialValue | Loaded 'j

definition useFetch_fetchUrl :: "'j response \<Rightarrow> 'j fetched hook \<Rightarrow> 'j fetched hook" where
  "useFetch_fetchUrl r st =
     (case r of
        Json json \<Rightarrow> st\<lparr>data := Loaded json, loading := False\<rparr>
      | _ \<Rightarrow> st)"

text \<open>
  The effect has no dependencies, so \<^verbatim>\<open>fetchUrl\<close> runs once, on mount; the state of the
  hook from then on is the initial state, changed by that one run.
\<close>

definition useFetch :: "'j response \<Rightarrow> 'j fetched hook" where
  "useFetch r = useFetch_fetchUrl r \<lparr>data = InitialValue, loading = True\<rparr>"

subsection \<open>The name index\<close>

text \<open>
  The parsed document is a tree of objects. Items are mutated in place and shared between
  the two tables of the index, so item objects live in a heap and arrays hold their
  addresses. \<open>item_id\<close> and \<open>item_tkv\<close> are the fields \<^verbatim>\<open>id\<close> and \<^verbatim>\<open>tkv\<close> of an item,
  \<open>item_rest\<close> stands for its other fields. The id is used as a property key only: an
  id that is no string stands as the string it converts to.
\<close>

record 'a item =
  item_id :: jsval
  item_tkv :: jsval
  item_rest :: 'a

type_synonym 'a heap = "nat \<Rightarrow> 'a item"

text \<open>
  An element of an array of items: an object, given by its address, or a value that is no
  object (\<^verbatim>\<open>null\<close>, a number, a string, a boolean).
\<close>

datatype element = NonObject | Object nat

text \<open>
  A category, as the loop reads it: \<^verbatim>\<open>null\<close>, where reading \<^verbatim>\<open>category.items\<close>
  raises a \<^verbatim>\<open>TypeError\<close>; a value whose \<^verbatim>\<open>items\<close> is not an array; or a value
  whose \<^verbatim>\<open>items\<close> is the given array.
\<close>

datatype category = NullCategory | NotArray | ItemArray "element list"

text \<open>\<^verbatim>\<open>json.nsi\<close> as \<^verbatim>\<open>Object.entries\<close> lists it, and \<^verbatim>\<open>json._meta\<close>.\<close>

record 'm nsi_json =
  nsi :: "(jstring \<times> category) list"
  meta_json :: 'm

text \<open>
  The two tables of the index, as maps from a key to what the loops store under it.
  (Under the key \<^verbatim>\<open>__proto__\<close> the source keeps the value as the prototype of the
  table, not as an own property; reading the table under this key gives it back all the
  same.)
\<close>

record 'm index =
  byPath :: "jstring \<rightharpoonup> element list"
  byId :: "jstring \<rightharpoonup> nat"
  meta :: 'm

text \<open>
  The inner loop: \<^verbatim>\<open>item.tkv = tkv; index.id[item.id] = item\<close>. The file is a module,
  hence strict code: the assignment to \<^verbatim>\<open>item.tkv\<close> raises a \<^verbatim>\<open>TypeError\<close> when the
  item is no object.
\<close>

fun tagItems ::
  "jstring \<Rightarrow> element list \<Rightarrow> 'a heap \<times> (jstring \<rightharpoonup> nat)
   \<Rightarrow> js_error + ('a heap \<times> (jstring \<rightharpoonup> nat))" where
  "tagItems tkv [] (h, ids) = Inr (h, ids)"
| "tagItems tkv (NonObject # es) (h, ids) = Inl TypeError"
| "tagItems tkv (Object a # es) (h, ids) =
     (let h' = h(a := (h a)\<lparr>item_tkv := JString tkv\<rparr>)
      in tagItems tkv es (h', ids(toString (item_id (h' a)) \<mapsto> a)))"

text \<open>The outer loop over \<^verbatim>\<open>Object.entries(json.nsi)\<close>.\<close>

fun populate ::
  "(jstring \<times> category) list \<Rightarrow> 'a heap \<times> 'm index \<Rightarrow> js_error + ('a heap \<times> 'm index)" where
  "populate [] (h, idx) = Inr (h, idx)"
| "populate ((tkv, category) # rest) (h, idx) =
     (case category of
        NullCategory \<Rightarrow> Inl TypeError
      | NotArray \<Rightarrow> populate rest (h, idx)
      | ItemArray items \<Rightarrow>
          (let idx1 = idx\<lparr>byPath := (byPath idx)(tkv \<mapsto> items)\<rparr>
           in bind_result (tagItems tkv items (h, byId idx1))
                (\<lambda>(h', ids). populate rest (h', idx1\<lparr>byId := ids\<rparr>))))"

text \<open>
  The body of \<^verbatim>\<open>fetchUrl\<close> after the parse, up to the finished index. The index is a
  local variable until then: an exception leaves nothing of it behind.
\<close>

definition buildIndex ::
  "'a heap \<times> 'm nsi_json body \<Rightarrow> js_error + ('a heap \<times> 'm index)" where
  "buildIndex parsed =
     (case parsed of
        (h, Missing) \<Rightarrow> Inl TypeError
      | (h, Present json) \<Rightarrow>
          populate (nsi json)
            (h, \<lparr>byPath = Map.empty, byId = Map.empty, meta = meta_json json\<rparr>))"

text \<open>
  An exception rejects the promise of \<^verbatim>\<open>fetchUrl\<close> before \<^verbatim>\<open>setData\<close> and
  \<^verbatim>\<open>setLoading\<close> run.
\<close>

definition useNsi_fetchUrl ::
  "('a heap \<times> 'm nsi_json body) response \<Rightarrow> ('a heap \<times> 'm index) fetched hook
   \<Rightarrow> ('a heap \<times> 'm index) fetched hook" where
  "useNsi_fetchUrl r st =
     (case r of
        Json parsed \<Rightarrow>
          (case buildIndex parsed of
             Inl e \<Rightarrow> st
           | Inr built \<Rightarrow> st\<lparr>data := Loaded built, loading := False\<rparr>)
      | _ \<Rightarrow> st)"

definition useNsi ::
  "('a heap \<times> 'm nsi_json body) response \<Rightarrow> ('a heap \<times> 'm index) fetched hook" where
  "useNsi r = useNsi_fetchUrl r \<lparr>data = InitialValue, loading = True\<rparr>"

text \<open>
  The item objects of an array; the item objects of the document in the order in which
  the two loops visit them, each with the key of its category; the shape of a parsed
  document (a tree: the keys of an object are distinct, and no item object occurs twice in
  it); the documents that the loops walk without an exception (no category is
  \<^verbatim>\<open>null\<close>, every element of an array of items is an object); the categories that the
  outer loop does not skip; and what one step of the inner loop does to the heap and to
  the table of ids.
\<close>

definition objects :: "element list \<Rightarrow> nat list" where
  "objects es = List.map_filter (\<lambda>e. case e of NonObject \<Rightarrow> None | Object a \<Rightarrow> Some a) es"

definition itemsOf :: "jstring \<times> category \<Rightarrow> (jstring \<times> nat) list" where
  "itemsOf e = (case snd e of ItemArray es \<Rightarrow> map (Pair (fst e)) (objects es) | _ \<Rightarrow> [])"

definition allItems :: "(jstring \<times> category) list \<Rightarrow> (jstring \<times> nat) list" where
  "allItems entries = concat (map itemsOf entries)"

definition parsedTree :: "(jstring \<times> category) list \<Rightarrow> bool" where
  "parsedTree entries \<longleftrightarrow> distinct (map fst entries) \<and> distinct (map snd (allItems entries))"

definition allObjects :: "(jstring \<times> category) list \<Rightarrow> bool" where
  "allObjects entries =
     list_all (\<lambda>e. case snd e of
                      NullCategory \<Rightarrow> False
                    | NotArray \<Rightarrow> True
                    | ItemArray es \<Rightarrow> list_all (\<lambda>x. x \<noteq> NonObject) es) entries"

definition tagOne :: "'a heap \<Rightarrow> jstring \<times> nat \<Rightarrow> 'a heap" where
  "tagOne h x = h(snd x := (h (snd x))\<lparr>item_tkv := JString (fst x)\<rparr>)"

definition idKey :: "'a heap \<Rightarrow> nat \<Rightarrow> jstring" where
  "idKey h a = toString (item_id (h a))"

definition arraysOf :: "(jstring \<times> category) list \<Rightarrow> (jstring \<times> element list) list" where
  "arraysOf entries =
     List.map_filter (\<lambda>e. case snd e of ItemArray es \<Rightarrow> Some (fst e, es) | _ \<Rightarrow> None) entries"

definition addId :: "'a heap \<Rightarrow> (jstring \<rightharpoonup> nat) \<Rightarrow> jstring \<times> nat \<Rightarrow> (jstring \<rightharpoonup> nat)" where
  "addId h ids x = ids(idKey h (snd x) \<mapsto> snd x)"

definition addPath ::
  "(jstring \<rightharpoonup> element list) \<Rightarrow> jstring \<times> element list \<Rightarrow> (jstring \<rightharpoonup> element list)" where
  "addPath m x = m(fst x \<mapsto> snd x)"

text \<open>A small document: two items share the id \<^verbatim>\<open>a1\<close>, one category has no item array.\<close>

definition exampleHeap :: "unit heap" where
  "exampleHeap a =
     \<lparr>item_id = JString (if a = 1 then js ''a2'' else js ''a1''), item_tkv = JUndefined,
        item_rest = ()\<rparr>"

definition exampleJson :: "unit nsi_json" where
  "exampleJson =
     \<lparr>nsi = [(js ''amenity/cafe/Foo'', ItemArray [Object 0, Object 1]), (js ''bad/cat'', NotArray),
             (js ''shop/x/Y'', ItemArray [Object 2])],
        meta_json = ()\<rparr>"

subsection \<open>The icon table\<close>

text \<open>
  A tag as the loop reads it: the three fields \<^verbatim>\<open>key\<close>, \<^verbatim>\<open>value\<close> and
  \<^verbatim>\<open>icon_url\<close>, each a string or missing. An element of \<^verbatim>\<open>json.tags\<close> is
  \<^verbatim>\<open>null\<close>, where reading \<^verbatim>\<open>tag.icon_url\<close> raises a \<^verbatim>\<open>TypeError\<close>, or a value
  with these fields (a number, a string or a boolean reads as a tag without fields).
\<close>

record tag =
  tag_key :: jsval
  tag_value :: jsval
  tag_icon_url :: jsval

datatype tag_element = NullTag | Tag tag

definition compositeKey :: "tag \<Rightarrow> jstring" where
  "compositeKey t =
     (if truthy (tag_value t) then toString (tag_key t) @ js ''/'' @ toString (tag_value t)
      else toString (tag_key t))"

fun populateIcons :: "tag_element list \<Rightarrow> obj \<Rightarrow> js_error + obj" where
  "populateIcons [] icons = Inr icons"
| "populateIcons (NullTag # ts) icons = Inl TypeError"
| "populateIcons (Tag t # ts) icons =
     (if \<not> truthy (tag_icon_url t) \<or> \<not> truthy (tag_key t) then populateIcons ts icons
      else populateIcons ts (setProp (compositeKey t) (tag_icon_url t) icons))"

text \<open>
  A tag that has both a non-empty icon URL and a non-empty key, and the entries that such
  tags create, in source order: a tag whose composite key is \<^verbatim>\<open>__proto__\<close> creates none.
\<close>

definition hasIconAndKey :: "tag \<Rightarrow> bool" where
  "hasIconAndKey t \<longleftrightarrow>
     (case tag_icon_url t of JUndefined \<Rightarrow> False | JString u \<Rightarrow> u \<noteq> []) \<and>
     (case tag_key t of JUndefined \<Rightarrow> False | JString k \<Rightarrow> k \<noteq> [])"

definition iconEntries :: "tag list \<Rightarrow> obj" where
  "iconEntries ts =
     map (\<lambda>t. (compositeKey t, tag_icon_url t))
       (filter (\<lambda>t. hasIconAndKey t \<and> compositeKey t \<noteq> js ''__proto__'') ts)"

text \<open>
  The body of \<^verbatim>\<open>fetchUrl\<close> after the parse: an exception rejects its promise before
  \<^verbatim>\<open>setData\<close> and \<^verbatim>\<open>setLoading\<close> run.
\<close>

definition useTaginfo_fetchUrl :: "tag_element list body response \<Rightarrow> obj hook \<Rightarrow> obj hook" where
  "useTaginfo_fetchUrl r st =
     (case r of
        Json Missing \<Rightarrow> st
      | Json (Present tags) \<Rightarrow>
          (case populateIcons tags [] of
             Inl e \<Rightarrow> st
           | Inr icons \<Rightarrow> st\<lparr>data := icons, loading := False\<rparr>)
      | _ \<Rightarrow> st)"

definition useTaginfo :: "tag_element list body response \<Rightarrow> obj hook" where
  "useTaginfo r = useTaginfo_fetchUrl r \<lparr>data = [], loading = True\<rparr>"

section \<open>The two effects of \<^verbatim>\<open>AppContextProvider\<close>\<close>

text \<open>The router's location, as far as the component reads it.\<close>

record location =
  pathname :: jstring
  search :: jstring
  hash :: jstring

subsection \<open>Inbound: location to parameters and hash\<close>

text \<open>
  The names that \<^verbatim>\<open>Object.prototype\<close> defines. The table \<^verbatim>\<open>index.id\<close> inherits them:
  under such a name that is no id, \<^verbatim>\<open>index.id[itemID]\<close> is a function (under
  \<^verbatim>\<open>__proto__\<close>, the prototype itself), which is truthy and has no \<^verbatim>\<open>tkv\<close>.
\<close>

definition objectPrototypeNames :: "jstring list" where
  "objectPrototypeNames =
     [js ''constructor'', js ''__defineGetter__'', js ''__defineSetter__'',
      js ''hasOwnProperty'', js ''__lookupGetter__'', js ''__lookupSetter__'',
      js ''isPrototypeOf'', js ''propertyIsEnumerable'', js ''toString'', js ''valueOf'',
      js ''__proto__'', js ''toLocaleString'']"

text \<open>
  The block under \<^verbatim>\<open>if (itemID)\<close>, once the index has loaded: the new hash and the new
  search string. \<^verbatim>\<open>item.tkv.split\<close> raises a \<^verbatim>\<open>TypeError\<close> on an item that has no
  \<^verbatim>\<open>tkv\<close>.
\<close>

definition resolveItem ::
  "'a heap \<Rightarrow> 'm index \<Rightarrow> location \<Rightarrow> obj \<Rightarrow> jstring \<Rightarrow> js_error + (jstring \<times> jstring)" where
  "resolveItem h idx loc newParams itemID =
     (case byId idx itemID of
        None \<Rightarrow>
          if itemID \<in> set objectPrototypeNames then Inl TypeError
          else Inr (hash loc, search loc)
      | Some a \<Rightarrow>
          (case item_tkv (h a) of
             JUndefined \<Rightarrow> Inl TypeError
           | JString tkv \<Rightarrow>
               (let parts = take 3 (splitOn 0x2F tkv);
                    p1 = setProp (js ''t'') (element parts 0) newParams;
                    p2 = setProp (js ''k'') (element parts 1) p1;
                    p3 = setProp (js ''v'') (element parts 2) p2;
                    newHash = js ''#'' @ itemID;
                    p4 = deleteProp (js ''id'') p3
                in map_result (\<lambda>newSearch. (newHash, newSearch)) (qsString p4))))"

text \<open>
  The effect returns whether it set \<^verbatim>\<open>_didChangeLocation\<close>, and the parameters and the
  hash that the next render sees.
\<close>

definition inbound ::
  "location \<Rightarrow> bool \<Rightarrow> 'a heap \<Rightarrow> 'm index \<Rightarrow> obj \<Rightarrow> jstring \<Rightarrow> js_error + (bool \<times> obj \<times> jstring)" where
  "inbound loc indexLoading h idx params hashState =
     bind_result (stringQs (search loc)) (\<lambda>newParams.
       let itemID = getProp newParams (js ''id'')
       in if truthy itemID \<and> indexLoading then Inr (False, params, hashState)
          else
            bind_result
              (if truthy itemID then resolveItem h idx loc newParams (toString itemID)
               else Inr (hash loc, search loc))
              (\<lambda>(newHash, newSearch).
                 bind_result (qsString params) (\<lambda>q.
                   let oldSearch = js ''?'' @ q
                   in if hashState \<noteq> newHash \<or> oldSearch \<noteq> newSearch
                      then map_result (\<lambda>p. (True, p, newHash)) (stringQs newSearch)
                      else Inr (False, params, hashState))))"

subsection \<open>Outbound: parameters and hash to location\<close>

definition orderedKeys :: "jstring list" where
  "orderedKeys = [js ''t'', js ''k'', js ''v'', js ''id'', js ''tt'', js ''cc'', js ''inc'']"

text \<open>The callback of \<^verbatim>\<open>forEach\<close>, with \<^verbatim>\<open>newParams\<close> passed along.\<close>

definition outbound_key :: "obj \<Rightarrow> obj \<Rightarrow> jstring \<Rightarrow> obj" where
  "outbound_key params newParams k =
     (if truthy (getProp params k) then setProp k (getProp params k) newParams
      else if k = js ''t'' then setProp k (JString (js ''brands'')) newParams
      else newParams)"

definition outboundParams :: "obj \<Rightarrow> obj" where
  "outboundParams params = foldl (outbound_key params) [] orderedKeys"

text \<open>What the walk over the ordered keys keeps of one key.\<close>

definition outboundEntry :: "obj \<Rightarrow> jstring \<Rightarrow> (jstring \<times> jsval) option" where
  "outboundEntry params k =
     (if truthy (getProp params k) then Some (k, getProp params k)
      else if k = js ''t'' then Some (k, JString (js ''brands''))
      else None)"

record navigation =
  to :: jstring
  replace :: bool

text \<open>
  The effect returns the call of \<^verbatim>\<open>navigate\<close> it makes, if any, and the value of
  \<^verbatim>\<open>_didChangeLocation\<close> it leaves. In the condition \<^verbatim>\<open>&&\<close> binds tighter than
  \<^verbatim>\<open>||\<close>.
\<close>

definition outbound ::
  "location \<Rightarrow> bool \<Rightarrow> bool \<Rightarrow> obj \<Rightarrow> jstring \<Rightarrow> js_error + (navigation option \<times> bool)" where
  "outbound loc indexLoading didChangeLocation params hashState =
     (if indexLoading then Inr (None, didChangeLocation)
      else
        bind_result (qsString (outboundParams params)) (\<lambda>q.
          let newSearch = js ''?'' @ q;
              newHash = hashState
          in if (\<not> didChangeLocation \<and> newSearch \<noteq> search loc) \<or> newHash \<noteq> hash loc
             then Inr (Some \<lparr>to = pathname loc @ newSearch @ newHash, replace = True\<rparr>, False)
             else Inr (None, didChangeLocation)))"

text \<open>
  A small loaded index: every item object has the id \<^verbatim>\<open>a1\<close> and belongs to the category
  \<^verbatim>\<open>amenity/cafe/Foo\<close>; and the parameters that this category stands for.
\<close>

definition cafeHeap :: "unit heap" where
  "cafeHeap a =
     \<lparr>item_id = JString (js ''a1''), item_tkv = JString (js ''amenity/cafe/Foo''),
        item_rest = ()\<rparr>"

definition cafeIndex :: "unit index" where
  "cafeIndex =
     \<lparr>byPath = [js ''amenity/cafe/Foo'' \<mapsto> [Object 0]], byId = [js ''a1'' \<mapsto> 0],
        meta = ()\<rparr>"

definition cafeParams :: obj where
  "cafeParams =
     [(js ''t'', JString (js ''amenity'')), (js ''k'', JString (js ''cafe'')),
      (js ''v'', JString (js ''Foo''))]"

section \<open>Properties of the URI built-ins\<close>

lemma bind_result_Inr: "bind_result (Inr x) f = f x"
  by (simp add: bind_result_def)

lemma bind_result_Inl: "bind_result (Inl e) f = Inl e"
  by (simp add: bind_result_def)

lemma unat_of_nat16: "n < 65536 \<Longrightarrow> unat (of_nat n :: 16 word) = n"
  by (simp add: unat_of_nat)

lemma unat_hexDigit: "d < 16 \<Longrightarrow> unat (hexDigit d) = (if d < 10 then 0x30 + d else 0x37 + d)"
  unfolding hexDigit_def by (simp add: unat_of_nat16 del: of_nat_add of_nat_numeral)

lemma hexValue_hexDigit: "d < 16 \<Longrightarrow> hexValue (hexDigit d) = Some d"
  by (auto simp: hexValue_def word_le_nat_alt unat_hexDigit)

lemma uriUnescaped_hexDigit: "d < 16 \<Longrightarrow> uriUnescaped (hexDigit d)"
  by (auto simp: uriUnescaped_def word_le_nat_alt unat_hexDigit)

lemma takeEscape_percentEscape: "b < 256 \<Longrightarrow> takeEscape (percentEscape b @ rest) = Some (b, rest)"
  by (simp add: percentEscape_def hexValue_hexDigit)

lemma takeEscapes_percentEscape:
  "list_all (\<lambda>b. b < 256) bs \<Longrightarrow>
   takeEscapes (length bs) (concat (map percentEscape bs) @ rest) = Some (bs, rest)"
  by (induction bs) (simp_all add: takeEscape_percentEscape)

lemma percentEscape_Cons: "percentEscape b @ rest = 0x25 # hexDigit (b div 16) # hexDigit (b mod 16) # rest"
  by (simp add: percentEscape_def)

lemma uriDecode_single:
  assumes "b < 0x80"
  shows "uriDecode (percentEscape b @ rest) = map_result ((#) (of_nat b)) (uriDecode rest)"
proof -
  have "takeEscape (0x25 # hexDigit (b div 16) # hexDigit (b mod 16) # rest) = Some (b, rest)"
    using takeEscape_percentEscape[of b rest] assms by (simp add: percentEscape_Cons)
  then show ?thesis
    using assms by (simp add: percentEscape_Cons leadingOnes_def del: takeEscape.simps)
qed

lemma uriDecode_multi:
  assumes "b0 < 256" and "list_all (\<lambda>b. b < 256) bs" and "leadingOnes b0 = Suc (length bs)"
    and "bs \<noteq> []" and "length bs \<le> 3" and "utf8Decode (b0 # bs) = Some v"
  shows "uriDecode (concat (map percentEscape (b0 # bs)) @ rest) =
         map_result ((@) (utf16Encode v)) (uriDecode rest)"
proof -
  let ?tail = "concat (map percentEscape bs) @ rest"
  have 1: "takeEscape (0x25 # hexDigit (b0 div 16) # hexDigit (b0 mod 16) # ?tail) = Some (b0, ?tail)"
    using takeEscape_percentEscape[of b0 ?tail] assms(1) by (simp add: percentEscape_Cons)
  have 2: "takeEscapes (length bs) ?tail = Some (bs, rest)"
    using assms(2) by (rule takeEscapes_percentEscape)
  have 3: "length bs \<noteq> 0" using assms(4) by simp
  have "uriDecode (0x25 # hexDigit (b0 div 16) # hexDigit (b0 mod 16) # ?tail) =
        map_result ((@) (utf16Encode v)) (uriDecode rest)"
    using 1 2 3 assms(3,5,6) by (simp del: takeEscape.simps utf8Decode.simps)
  then show ?thesis by (simp add: percentEscape_Cons)
qed




lemma mod64_less: "(x::nat) mod 64 < 128"
  by (rule less_trans[OF mod_less_divisor]) simp_all

lemma utf8Encode_bytes: "cp \<le> 0x10FFFF \<Longrightarrow> list_all (\<lambda>b. b < 256) (utf8Encode cp)"
proof -
  assume a: "cp \<le> 0x10FFFF"
  have "cp < 0x800 \<Longrightarrow> cp div 0x40 < 0x20" by (rule less_mult_imp_div_less) simp
  moreover have "cp < 0x10000 \<Longrightarrow> cp div 0x1000 < 0x10" by (rule less_mult_imp_div_less) simp
  moreover have "cp div 0x40000 < 8" using a by (intro less_mult_imp_div_less) simp
  ultimately show ?thesis
    by (auto simp: utf8Encode_def mod64_less)
qed




lemma leadingOnes_utf8Encode:
  assumes "0x80 \<le> cp" "cp \<le> 0x10FFFF"
  shows "leadingOnes (hd (utf8Encode cp)) = length (utf8Encode cp)"
proof -
  have "cp < 0x800 \<Longrightarrow> cp div 0x40 < 0x20" by (rule less_mult_imp_div_less) simp
  moreover have "cp < 0x10000 \<Longrightarrow> cp div 0x1000 < 0x10" by (rule less_mult_imp_div_less) simp
  moreover have "cp div 0x40000 < 8" using assms by (intro less_mult_imp_div_less) simp
  ultimately show ?thesis using assms
    by (auto simp: utf8Encode_def leadingOnes_def)
qed




lemma utf8Decode_2:
  assumes "0x80 \<le> cp"
  shows "utf8Decode [0xC0 + cp div 0x40, 0x80 + cp mod 0x40] = Some cp"
  using assms by (simp add: isContinuation_def)

lemma utf8Decode_3:
  assumes "0x800 \<le> cp" "cp < 0xD800 \<or> 0xDFFF < cp"
  shows "utf8Decode [0xE0 + cp div 0x1000, 0x80 + cp div 0x40 mod 0x40, 0x80 + cp mod 0x40] = Some cp"
proof -
  define q where "q = cp div 64"
  define r where "r = cp mod 64"
  define a where "a = q div 64"
  define b where "b = q mod 64"
  have 1: "cp div 0x1000 = a" by (simp add: a_def q_def div_mult2_eq[symmetric])
  have 2: "q * 64 + r = cp" by (simp add: q_def r_def)
  have 3: "a * 64 + b = q" by (simp add: a_def b_def)
  have v: "a * 0x1000 + b * 0x40 + r = cp" using 2 3 by linarith
  have rb: "r < 64" "b < 64" by (simp_all add: r_def b_def)
  have "utf8Decode [0xE0 + a, 0x80 + b, 0x80 + r] = Some cp"
    using v rb assms by (simp add: isContinuation_def)
  then show ?thesis by (simp add: 1 b_def q_def r_def)
qed

lemma utf8Decode_4:
  assumes "0x10000 \<le> cp" "cp \<le> 0x10FFFF"
  shows "utf8Decode [0xF0 + cp div 0x40000, 0x80 + cp div 0x1000 mod 0x40,
                     0x80 + cp div 0x40 mod 0x40, 0x80 + cp mod 0x40] = Some cp"
proof -
  define q where "q = cp div 64"
  define r where "r = cp mod 64"
  define a where "a = q div 64"
  define b where "b = q mod 64"
  define c where "c = a div 64"
  define d where "d = a mod 64"
  have 1: "cp div 0x1000 = a" by (simp add: a_def q_def div_mult2_eq[symmetric])
  have 5: "cp div 0x40000 = c" by (simp add: c_def a_def q_def div_mult2_eq[symmetric])
  have 2: "q * 64 + r = cp" by (simp add: q_def r_def)
  have 3: "a * 64 + b = q" by (simp add: a_def b_def)
  have 4: "c * 64 + d = a" by (simp add: c_def d_def)
  have v: "c * 0x40000 + d * 0x1000 + b * 0x40 + r = cp" using 2 3 4 by linarith
  have rb: "r < 64" "b < 64" "d < 64" by (simp_all add: r_def b_def d_def)
  have "utf8Decode [0xF0 + c, 0x80 + d, 0x80 + b, 0x80 + r] = Some cp"
    using v rb assms by (simp add: isContinuation_def)
  then show ?thesis by (simp add: 1 5 b_def q_def r_def d_def)
qed

lemma utf8Decode_utf8Encode:
  assumes "0x80 \<le> cp" "cp \<le> 0x10FFFF" "cp < 0xD800 \<or> 0xDFFF < cp"
  shows "utf8Decode (utf8Encode cp) = Some cp"
  using assms utf8Decode_2[of cp] utf8Decode_3[of cp] utf8Decode_4[of cp]
  by (simp add: utf8Encode_def del: utf8Decode.simps)




lemma uriDecode_escapeCodePoint:
  assumes "cp \<le> 0x10FFFF" "cp < 0xD800 \<or> 0xDFFF < cp"
  shows "uriDecode (escapeCodePoint cp @ rest) = map_result ((@) (utf16Encode cp)) (uriDecode rest)"
proof (cases "cp < 0x80")
  case True
  have "(@) [of_nat cp :: jschar] = (#) (of_nat cp)" by (rule ext) simp
  then show ?thesis
    using True uriDecode_single[of cp rest]
    by (simp add: escapeCodePoint_def utf8Encode_def utf16Encode_def)
next
  case False
  then have ge: "0x80 \<le> cp" by simp
  have "\<exists>b0 bs. utf8Encode cp = b0 # bs \<and> bs \<noteq> [] \<and> length bs \<le> 3"
    using False by (simp add: utf8Encode_def)
  then obtain b0 bs where bs: "utf8Encode cp = b0 # bs" "bs \<noteq> []" "length bs \<le> 3"
    by blast
  have "list_all (\<lambda>b. b < 256) (b0 # bs)"
    using utf8Encode_bytes[OF assms(1)] bs(1) by simp
  moreover have "leadingOnes b0 = Suc (length bs)"
    using leadingOnes_utf8Encode[OF ge assms(1)] bs(1) by simp
  moreover have "utf8Decode (b0 # bs) = Some cp"
    using utf8Decode_utf8Encode[OF ge assms] bs(1) by simp
  ultimately have "uriDecode (concat (map percentEscape (b0 # bs)) @ rest) =
      map_result ((@) (utf16Encode cp)) (uriDecode rest)"
    using bs(2,3) by (intro uriDecode_multi) simp_all
  then show ?thesis by (simp add: escapeCodePoint_def bs(1))
qed

lemma utf16Encode_unit: "utf16Encode (unat (c :: jschar)) = [c]"
proof -
  have "unat c < 65536" using unsigned_less[of c] by simp
  then show ?thesis by (simp add: utf16Encode_def)
qed

lemma utf16Encode_pair:
  assumes "isLeadingSurrogate c" "isTrailingSurrogate d"
  shows "utf16Encode (surrogatePairToCodePoint c d) = [c, d]"
proof -
  define h where "h = unat c - 0xD800"
  define l where "l = unat d - 0xDC00"
  have c: "unat c = 0xD800 + h" using assms(1) by (simp add: isLeadingSurrogate_def word_le_nat_alt h_def)
  have d: "unat d = 0xDC00 + l" "l < 0x400"
    using assms(2) by (auto simp: isTrailingSurrogate_def word_le_nat_alt l_def)
  have cp: "surrogatePairToCodePoint c d = h * 0x400 + l + 0x10000"
    by (simp add: surrogatePairToCodePoint_def h_def l_def)
  have "(h * 0x400 + l) div 0x400 = h" "(h * 0x400 + l) mod 0x400 = l"
    using d(2) by simp_all
  then have "utf16Encode (h * 0x400 + l + 0x10000) = [of_nat (0xD800 + h), of_nat (0xDC00 + l)]"
    by (simp add: utf16Encode_def del: of_nat_add of_nat_numeral)
  also have "\<dots> = [of_nat (unat c), of_nat (unat d)]" by (simp only: c d(1))
  finally show ?thesis by (simp add: cp)
qed

lemma surrogatePair_range:
  assumes "isLeadingSurrogate c" "isTrailingSurrogate d"
  shows "surrogatePairToCodePoint c d \<le> 0x10FFFF" "0xDFFF < surrogatePairToCodePoint c d"
  using assms
  by (auto simp: surrogatePairToCodePoint_def isLeadingSurrogate_def isTrailingSurrogate_def
      word_le_nat_alt)

lemma unat_jschar: "unat (c :: jschar) < 65536"
  using unsigned_less[of c] by simp

lemma uriUnescaped_special:
  assumes "uriUnescaped c"
  shows "c \<noteq> 0x25" "c \<noteq> 0x26" "c \<noteq> 0x3D" "c \<noteq> 0x3F" "c \<noteq> 0x23"
    "\<not> isTrailingSurrogate c" "\<not> isLeadingSurrogate c"
  using assms
  by (auto simp: uriUnescaped_def isTrailingSurrogate_def isLeadingSurrogate_def word_le_nat_alt)

lemma map_result_Inr_iff: "map_result f r = Inr y \<longleftrightarrow> (\<exists>x. r = Inr x \<and> y = f x)"
  by (cases r) (auto simp: map_result_def)

lemma map_result_Inr: "map_result f (Inr x) = Inr (f x)"
  by (simp add: map_result_def)

lemma map_result_Inl: "map_result f (Inl e) = Inl e"
  by (simp add: map_result_def)

lemma uriEncode_roundtrip: "uriEncode s = Inr e \<Longrightarrow> uriDecode e = Inr s"
proof (induction s arbitrary: e rule: uriEncode.induct)
  case 1
  then show ?case by simp
next
  case (2 c cs)
  show ?case
  proof (cases "uriUnescaped c")
    case True
    with "2.prems" obtain e' where e': "uriEncode cs = Inr e'" "e = c # e'"
      by (auto simp: map_result_Inr_iff)
    have "uriDecode e' = Inr cs" using "2.IH"(1)[OF True e'(1)] .
    then show ?thesis using uriUnescaped_special(1)[OF True] by (simp add: e'(2) map_result_Inr)
  next
    case False
    note nu = this
    show ?thesis
    proof (cases "isTrailingSurrogate c")
      case True
      with "2.prems" nu show ?thesis by simp
    next
      case False
      note nt = this
      show ?thesis
      proof (cases "isLeadingSurrogate c")
        case True
        with "2.prems" nu nt obtain d ds e' where
          d: "cs = d # ds" "isTrailingSurrogate d" "uriEncode ds = Inr e'"
            "e = escapeCodePoint (surrogatePairToCodePoint c d) @ e'"
          by (auto simp: map_result_Inr_iff split: list.splits if_splits)
        have "uriDecode e' = Inr ds" using "2.IH"(2)[OF nu nt True d(1) d(2) d(3)] .
        then show ?thesis
          using uriDecode_escapeCodePoint[of "surrogatePairToCodePoint c d" e']
            surrogatePair_range[OF True d(2)] utf16Encode_pair[OF True d(2)]
          by (simp add: d(1,4) map_result_Inr)
      next
        case False
        with "2.prems" nu nt obtain e' where
          e': "uriEncode cs = Inr e'" "e = escapeCodePoint (unat c) @ e'"
          by (auto simp: map_result_Inr_iff)
        have "uriDecode e' = Inr cs" using "2.IH"(3)[OF nu nt False e'(1)] .
        moreover have "unat c \<le> 0x10FFFF" using unat_jschar[of c] by simp
        moreover have "unat c < 0xD800 \<or> 0xDFFF < unat c"
          using nt False by (auto simp: isTrailingSurrogate_def isLeadingSurrogate_def word_le_nat_alt)
        ultimately show ?thesis
          using uriDecode_escapeCodePoint[of "unat c" e'] utf16Encode_unit[of c]
          by (simp add: e'(2) map_result_Inr)
      qed
    qed
  qed
qed

section \<open>Properties of objects and of the icon table\<close>

lemma map_of_setProp:
  "k \<noteq> js ''__proto__'' \<Longrightarrow> map_of (setProp k v ob) = (map_of ob)(k \<mapsto> v)"
  by (induction ob) (auto simp: fun_eq_iff)

lemma keys_setProp:
  "k \<noteq> js ''__proto__'' \<Longrightarrow> fst ` set (setProp k v ob) = insert k (fst ` set ob)"
  by (induction ob) auto

lemma keys_setProp_subset: "fst ` set (setProp k v ob) \<subseteq> insert k (fst ` set ob)"
  by (induction ob) auto

lemma setProp_proto:
  "js ''__proto__'' \<notin> fst ` set ob \<Longrightarrow> setProp (js ''__proto__'') v ob = ob"
  by (induction ob) auto

lemma keys_setProp_proto:
  "js ''__proto__'' \<notin> fst ` set ob \<Longrightarrow> js ''__proto__'' \<notin> fst ` set (setProp k v ob)"
  by (cases "k = js ''__proto__''") (simp_all add: setProp_proto keys_setProp)

lemma distinct_setProp: "distinct (map fst ob) \<Longrightarrow> distinct (map fst (setProp k v ob))"
proof (induction ob)
  case Nil
  then show ?case by simp
next
  case (Cons p ps)
  then show ?case
    using keys_setProp_subset[of k v ps] by (auto simp: image_iff)
qed

lemma truthy_iff: "truthy v \<longleftrightarrow> (\<exists>s. v = JString s \<and> s \<noteq> [])"
  by (cases v) (simp_all add: truthy_def)

lemma hasIconAndKey_truthy: "hasIconAndKey t \<longleftrightarrow> truthy (tag_icon_url t) \<and> truthy (tag_key t)"
  by (simp add: hasIconAndKey_def truthy_def)

lemma populateIcons_Tag:
  "populateIcons (Tag t # ts) icons =
     (if hasIconAndKey t \<and> compositeKey t \<noteq> js ''__proto__''
      then populateIcons ts (setProp (compositeKey t) (tag_icon_url t) icons)
      else if hasIconAndKey t
      then populateIcons ts (setProp (js ''__proto__'') (tag_icon_url t) icons)
      else populateIcons ts icons)"
  by (auto simp: hasIconAndKey_truthy)

lemma populateIcons_map:
  assumes "js ''__proto__'' \<notin> fst ` set icons"
  shows "\<exists>r. populateIcons (map Tag ts) icons = Inr r \<and>
             map_of r = map_of icons ++ map_of (rev (iconEntries ts)) \<and>
             (distinct (map fst icons) \<longrightarrow> distinct (map fst r))"
  using assms
proof (induction ts arbitrary: icons)
  case Nil
  then show ?case by (simp add: iconEntries_def)
next
  case (Cons t ts)
  consider (entry) "hasIconAndKey t" "compositeKey t \<noteq> js ''__proto__''"
    | (proto) "hasIconAndKey t" "compositeKey t = js ''__proto__''"
    | (skip) "\<not> hasIconAndKey t"
    by blast
  then show ?case
  proof cases
    case entry
    let ?icons = "setProp (compositeKey t) (tag_icon_url t) icons"
    have "js ''__proto__'' \<notin> fst ` set ?icons"
      using Cons.prems by (rule keys_setProp_proto)
    from Cons.IH[OF this] obtain r where r: "populateIcons (map Tag ts) ?icons = Inr r"
      "map_of r = map_of ?icons ++ map_of (rev (iconEntries ts))"
      "distinct (map fst ?icons) \<longrightarrow> distinct (map fst r)"
      by blast
    have 1: "populateIcons (map Tag (t # ts)) icons = Inr r"
      using entry r(1) by (simp add: populateIcons_Tag del: populateIcons.simps)
    have "map_of ?icons = (map_of icons)(compositeKey t \<mapsto> tag_icon_url t)"
      using entry(2) by (rule map_of_setProp)
    then have 2: "map_of r = map_of icons ++ map_of (rev (iconEntries (t # ts)))"
      using entry r(2)
      by (simp add: iconEntries_def fun_eq_iff map_add_def split: option.splits)
    have 3: "distinct (map fst icons) \<longrightarrow> distinct (map fst r)"
      using r(3) distinct_setProp by blast
    from 1 2 3 show ?thesis by blast
  next
    case proto
    from Cons.IH[OF Cons.prems] obtain r where r: "populateIcons (map Tag ts) icons = Inr r"
      "map_of r = map_of icons ++ map_of (rev (iconEntries ts))"
      "distinct (map fst icons) \<longrightarrow> distinct (map fst r)"
      by blast
    have "populateIcons (map Tag (t # ts)) icons = Inr r"
      using proto r(1) Cons.prems
      by (simp add: populateIcons_Tag setProp_proto del: populateIcons.simps)
    moreover have "iconEntries (t # ts) = iconEntries ts"
      using proto by (simp add: iconEntries_def)
    ultimately show ?thesis using r(2,3) by simp
  next
    case skip
    from Cons.IH[OF Cons.prems] obtain r where r: "populateIcons (map Tag ts) icons = Inr r"
      "map_of r = map_of icons ++ map_of (rev (iconEntries ts))"
      "distinct (map fst icons) \<longrightarrow> distinct (map fst r)"
      by blast
    have "populateIcons (map Tag (t # ts)) icons = Inr r"
      using skip r(1) by (simp add: populateIcons_Tag del: populateIcons.simps)
    moreover have "iconEntries (t # ts) = iconEntries ts"
      using skip by (simp add: iconEntries_def)
    ultimately show ?thesis using r(2,3) by simp
  qed
qed

lemma populateIcons_NullTag: "NullTag \<in> set ts \<Longrightarrow> populateIcons ts icons = Inl TypeError"
proof (induction ts arbitrary: icons)
  case Nil
  then show ?case by simp
next
  case (Cons e ts)
  then show ?case by (cases e) auto
qed

lemma iconEntries_keys:
  "fst ` set (iconEntries ts) =
   {compositeKey t |t. t \<in> set ts \<and> hasIconAndKey t \<and> compositeKey t \<noteq> js ''__proto__''}"
  by (auto simp: iconEntries_def image_iff)

lemma iconEntries_last:
  assumes "hasIconAndKey t" and "compositeKey t \<noteq> js ''__proto__''"
    and "\<forall>t'\<in>set post. hasIconAndKey t' \<longrightarrow> compositeKey t' \<noteq> compositeKey t"
  shows "map_of (rev (iconEntries (pre @ t # post))) (compositeKey t) = Some (tag_icon_url t)"
proof -
  have "compositeKey t \<notin> fst ` set (rev (iconEntries post))"
    using assms(3) by (auto simp: iconEntries_keys)
  then have "map_of (rev (iconEntries post)) (compositeKey t) = None"
    by (simp add: map_of_eq_None_iff)
  moreover have "rev (iconEntries (pre @ t # post)) =
      rev (iconEntries post) @ (compositeKey t, tag_icon_url t) # rev (iconEntries pre)"
    using assms(1,2) by (simp add: iconEntries_def)
  ultimately show ?thesis by (simp add: map_add_def)
qed

lemma compositeKey_cases:
  assumes "tag_key t = JString k"
  shows "tag_value t = JUndefined \<or> tag_value t = JString [] \<Longrightarrow> compositeKey t = k"
    and "tag_value t = JString v \<Longrightarrow> v \<noteq> [] \<Longrightarrow> compositeKey t = k @ js ''/'' @ v"
  using assms by (auto simp: compositeKey_def truthy_def toString_def)

section \<open>Properties of the ordered parameters\<close>

lemma setProp_new:
  "k \<notin> fst ` set ob \<Longrightarrow> k \<noteq> js ''__proto__'' \<Longrightarrow> setProp k v ob = ob @ [(k, v)]"
  by (induction ob) auto

lemma outbound_key_entry:
  "k \<notin> fst ` set acc \<Longrightarrow> k \<noteq> js ''__proto__'' \<Longrightarrow>
   outbound_key params acc k = acc @ (case outboundEntry params k of None \<Rightarrow> [] | Some e \<Rightarrow> [e])"
  by (auto simp: outbound_key_def outboundEntry_def setProp_new)

lemma outboundEntry_fst: "outboundEntry params k = Some e \<Longrightarrow> fst e = k"
  by (auto simp: outboundEntry_def split: if_splits)

lemma map_filter_Cons:
  "List.map_filter f (x # xs) = (case f x of None \<Rightarrow> [] | Some y \<Rightarrow> [y]) @ List.map_filter f xs"
  by (simp add: List.map_filter_def split: option.splits)

lemma map_filter_Nil: "List.map_filter f [] = []"
  by (simp add: List.map_filter_def)

lemma foldl_outbound_key:
  "distinct ks \<Longrightarrow> set ks \<inter> fst ` set acc = {} \<Longrightarrow> js ''__proto__'' \<notin> set ks \<Longrightarrow>
   foldl (outbound_key params) acc ks = acc @ List.map_filter (outboundEntry params) ks"
proof (induction ks arbitrary: acc)
  case Nil
  then show ?case by (simp add: map_filter_Nil)
next
  case (Cons k ks)
  let ?e = "case outboundEntry params k of None \<Rightarrow> [] | Some e \<Rightarrow> [e]"
  have k: "k \<notin> fst ` set acc" using Cons.prems(2) by auto
  have kp: "k \<noteq> js ''__proto__''" using Cons.prems(3) by auto
  have "fst ` set ?e \<subseteq> {k}"
    by (auto split: option.splits dest: outboundEntry_fst outboundEntry_fst[OF sym])
  then have "set ks \<inter> fst ` set (acc @ ?e) = {}"
    using Cons.prems by auto
  then have "foldl (outbound_key params) (acc @ ?e) ks =
      (acc @ ?e) @ List.map_filter (outboundEntry params) ks"
    using Cons.prems(1,3) by (intro Cons.IH) simp_all
  then show ?case
    by (simp add: outbound_key_entry[OF k kp] map_filter_Cons split: option.splits)
qed

lemma distinct_orderedKeys: "distinct orderedKeys"
  by code_simp

lemma orderedKeys_ordinary: "js ''__proto__'' \<notin> set orderedKeys"
  by code_simp

lemma outboundParams_entries: "outboundParams params = List.map_filter (outboundEntry params) orderedKeys"
  using foldl_outbound_key[OF distinct_orderedKeys _ orderedKeys_ordinary, of "[]" params]
  by (simp add: outboundParams_def)

lemma map_fst_map_filter_entry:
  "map fst (List.map_filter (outboundEntry params) ks) =
   filter (\<lambda>k. k = js ''t'' \<or> truthy (getProp params k)) ks"
  by (induction ks) (auto simp: map_filter_Cons map_filter_Nil outboundEntry_def)

lemma map_of_map_filter_entry:
  "map_of (List.map_filter (outboundEntry params) ks) k =
   (if k \<in> set ks then map_option snd (outboundEntry params k) else None)"
proof (induction ks)
  case Nil
  then show ?case by (simp add: map_filter_Nil)
next
  case (Cons a ks)
  then show ?case
    by (auto simp: map_filter_Cons split: option.splits dest: outboundEntry_fst)
qed

lemma objectKeys_plain:
  assumes "\<forall>k\<in>fst ` set ob. arrayIndex k = None"
  shows "objectKeys ob = map fst ob"
proof -
  have "List.map_filter (\<lambda>k. map_option (\<lambda>n. (n, k)) (arrayIndex k)) (map fst ob) = []"
    using assms by (induction ob) (auto simp: map_filter_Cons map_filter_Nil)
  moreover have "filter (\<lambda>k. arrayIndex k = None) (map fst ob) = map fst ob"
    using assms by (induction ob) auto
  ultimately show ?thesis by (simp add: objectKeys_def)
qed

lemma uriEncode_unescaped: "list_all uriUnescaped s \<Longrightarrow> uriEncode s = Inr s"
  by (induction s) (simp_all add: map_result_Inr)

lemma map_results_cong:
  "(\<And>x. x \<in> set xs \<Longrightarrow> f x = g x) \<Longrightarrow> map_results f xs = map_results g xs"
  by (induction xs) simp_all

lemma map_results_map: "map_results f (map h xs) = map_results (\<lambda>x. f (h x)) xs"
  by (induction xs) simp_all

lemma getProp_distinct: "distinct (map fst ob) \<Longrightarrow> (k, v) \<in> set ob \<Longrightarrow> getProp ob k = v"
  by (simp add: getProp_def)

lemma qsString_plain:
  assumes "distinct (map fst ob)"
    and "\<forall>k\<in>fst ` set ob. arrayIndex k = None \<and> list_all uriUnescaped k"
  shows "qsString ob =
    map_result (joinWith (js ''&''))
      (map_results (\<lambda>(k, v). map_result (\<lambda>e. k @ js ''='' @ e) (encodeURIComponent v)) ob)"
proof -
  have k: "objectKeys ob = map fst ob"
    using assms(2) by (intro objectKeys_plain) simp
  have "qsString_pair ob (fst p) =
      (case p of (k, v) \<Rightarrow> map_result (\<lambda>e. k @ js ''='' @ e) (encodeURIComponent v))"
    if "p \<in> set ob" for p
  proof -
    obtain a b where p: "p = (a, b)" by (cases p)
    have "list_all uriUnescaped a" using assms(2) that p by force
    then have "encodeURIComponent (JString a) = Inr a"
      by (simp add: encodeURIComponent_def toString_def uriEncode_unescaped)
    moreover have "getProp ob a = b"
      using getProp_distinct[OF assms(1)] that p by simp
    ultimately show ?thesis
      by (cases "encodeURIComponent b")
         (simp_all add: p qsString_pair_def bind_result_Inr bind_result_Inl map_result_Inl map_result_Inr)
  qed
  then have "map_results (qsString_pair ob) (map fst ob) =
      map_results (\<lambda>(k, v). map_result (\<lambda>e. k @ js ''='' @ e) (encodeURIComponent v)) ob"
    unfolding map_results_map by (intro map_results_cong) simp
  then show ?thesis by (simp add: qsString_def k)
qed

lemma orderedKeys_plain: "\<forall>k\<in>set orderedKeys. arrayIndex k = None \<and> list_all uriUnescaped k"
  by code_simp

lemma outboundParams_keys: "fst ` set (outboundParams params) \<subseteq> set orderedKeys"
proof -
  have "set (map fst (outboundParams params)) \<subseteq> set orderedKeys"
    unfolding outboundParams_entries map_fst_map_filter_entry by auto
  then show ?thesis by simp
qed

lemma outboundParams_distinct: "distinct (map fst (outboundParams params))"
  unfolding outboundParams_entries map_fst_map_filter_entry
  using distinct_orderedKeys by simp

section \<open>Properties of the index construction\<close>

lemma tagOne_id [simp]: "item_id (tagOne h x a) = item_id (h a)"
  by (simp add: tagOne_def)

lemma tagOne_rest [simp]: "item_rest (tagOne h x a) = item_rest (h a)"
  by (simp add: tagOne_def)

lemma foldl_tagOne_id [simp]: "item_id (foldl tagOne h xs a) = item_id (h a)"
  by (induction xs arbitrary: h) simp_all

lemma foldl_tagOne_rest [simp]: "item_rest (foldl tagOne h xs a) = item_rest (h a)"
  by (induction xs arbitrary: h) simp_all

lemma idKey_foldl_tagOne [simp]: "idKey (foldl tagOne h xs) = idKey h"
  by (rule ext) (simp add: idKey_def)

lemma idKey_tagOne [simp]: "idKey (tagOne h x) = idKey h"
  by (rule ext) (simp add: idKey_def)

lemma foldl_tagOne_frame: "a \<notin> snd ` set xs \<Longrightarrow> foldl tagOne h xs a = h a"
  by (induction xs arbitrary: h) (auto simp: tagOne_def)

lemma foldl_tagOne_tagged:
  "distinct (map snd xs) \<Longrightarrow> (tkv, a) \<in> set xs \<Longrightarrow>
   foldl tagOne h xs a = (h a)\<lparr>item_tkv := JString tkv\<rparr>"
proof (induction xs arbitrary: h)
  case Nil
  then show ?case by simp
next
  case (Cons x xs)
  show ?case
  proof (cases "x = (tkv, a)")
    case True
    then have "a \<notin> snd ` set xs" using Cons.prems(1) by auto
    then have "foldl tagOne (tagOne h x) xs a = tagOne h x a"
      by (rule foldl_tagOne_frame)
    moreover have "tagOne h x a = (h a)\<lparr>item_tkv := JString tkv\<rparr>"
      using True by (simp add: tagOne_def)
    ultimately show ?thesis by simp
  next
    case False
    then have in_xs: "(tkv, a) \<in> set xs" using Cons.prems(2) by simp
    then have "a \<in> snd ` set xs" by force
    then have "snd x \<noteq> a" using Cons.prems(1) by auto
    then have "tagOne h x a = h a" by (simp add: tagOne_def)
    moreover have "foldl tagOne (tagOne h x) xs a = (tagOne h x a)\<lparr>item_tkv := JString tkv\<rparr>"
      using Cons.prems(1) in_xs by (intro Cons.IH) simp_all
    ultimately show ?thesis by simp
  qed
qed

lemma objects_simps [simp]:
  "objects [] = []" "objects (NonObject # es) = objects es" "objects (Object a # es) = a # objects es"
  by (simp_all add: objects_def map_filter_Nil map_filter_Cons)

lemma set_objects: "a \<in> set (objects es) \<longleftrightarrow> Object a \<in> set es"
proof (induction es)
  case Nil
  then show ?case by simp
next
  case (Cons e es)
  then show ?case by (cases e) auto
qed

lemma tagItems_fold:
  "tagItems tkv es (h, ids) =
     (if NonObject \<in> set es then Inl TypeError
      else Inr (foldl tagOne h (map (Pair tkv) (objects es)),
                foldl (addId h) ids (map (Pair tkv) (objects es))))"
proof (induction es arbitrary: h ids)
  case Nil
  then show ?case by simp
next
  case (Cons e es)
  show ?case
  proof (cases e)
    case NonObject
    then show ?thesis by simp
  next
    case (Object a)
    have 1: "h(a := (h a)\<lparr>item_tkv := JString tkv\<rparr>) = tagOne h (tkv, a)"
      by (simp add: tagOne_def)
    have 2: "addId (tagOne h (tkv, a)) = addId h"
      by (intro ext) (simp add: addId_def)
    have 3: "ids(toString (item_id (h a)) \<mapsto> a) = addId h ids (tkv, a)"
      by (simp add: addId_def idKey_def)
    have "tagItems tkv (e # es) (h, ids) = tagItems tkv es (tagOne h (tkv, a), addId h ids (tkv, a))"
      by (simp add: Object Let_def 1 3)
    then show ?thesis
      by (simp add: Cons.IH 2 Object)
  qed
qed

lemma addId_cong: "idKey h' = idKey h \<Longrightarrow> addId h' = addId h"
  by (intro ext) (simp add: addId_def)

lemma allObjects_Cons:
  "allObjects ((tkv, c) # entries) \<longleftrightarrow>
     (case c of NullCategory \<Rightarrow> False | NotArray \<Rightarrow> True | ItemArray es \<Rightarrow> NonObject \<notin> set es) \<and>
     allObjects entries"
  by (auto simp: allObjects_def list_all_iff split: category.splits)

lemma populate_fold:
  "populate entries (h, idx) =
     (if allObjects entries
      then Inr (foldl tagOne h (allItems entries),
                idx\<lparr>byPath := foldl addPath (byPath idx) (arraysOf entries),
                      byId := foldl (addId h) (byId idx) (allItems entries)\<rparr>)
      else Inl TypeError)"
proof (induction entries arbitrary: h idx)
  case Nil
  then show ?case by (simp add: allItems_def arraysOf_def map_filter_Nil allObjects_def)
next
  case (Cons e entries)
  obtain tkv c where e: "e = (tkv, c)" by (cases e)
  show ?case
  proof (cases c)
    case NullCategory
    then show ?thesis by (simp add: e allObjects_Cons)
  next
    case NotArray
    then show ?thesis
      using Cons.IH[of h idx]
      by (simp add: e allObjects_Cons allItems_def arraysOf_def map_filter_Cons itemsOf_def)
  next
    case (ItemArray items)
    show ?thesis
    proof (cases "NonObject \<in> set items")
      case True
      then show ?thesis
        by (simp add: e ItemArray allObjects_Cons tagItems_fold bind_result_Inl)
    next
      case False
      let ?idx1 = "idx\<lparr>byPath := (byPath idx)(tkv \<mapsto> items)\<rparr>"
      let ?h' = "foldl tagOne h (map (Pair tkv) (objects items))"
      let ?ids = "foldl (addId h) (byId idx) (map (Pair tkv) (objects items))"
      have step: "populate (e # entries) (h, idx) = populate entries (?h', ?idx1\<lparr>byId := ?ids\<rparr>)"
        using False by (simp add: e ItemArray tagItems_fold bind_result_Inr)
      have a: "addId ?h' = addId h" by (rule addId_cong) simp
      have p: "(byPath idx)(tkv \<mapsto> items) = addPath (byPath idx) (tkv, items)"
        by (simp add: addPath_def)
      have o: "allObjects (e # entries) = allObjects entries"
        using False by (simp add: e ItemArray allObjects_Cons)
      show ?thesis
        unfolding step o
        using Cons.IH[of ?h' "?idx1\<lparr>byId := ?ids\<rparr>"]
        by (simp add: a p e ItemArray allItems_def arraysOf_def map_filter_Cons itemsOf_def)
    qed
  qed
qed

lemma foldl_addPath: "foldl addPath m xs = m ++ map_of (rev xs)"
proof (induction xs arbitrary: m)
  case Nil
  then show ?case by simp
next
  case (Cons x xs)
  have "addPath m x ++ map_of (rev xs) = m ++ (map_of [x] ++ map_of (rev xs))"
    by (auto simp: addPath_def map_add_def fun_eq_iff split: option.splits)
  then show ?case
    by (simp add: Cons.IH)
qed

lemma foldl_addId:
  "foldl (addId h) ids xs = ids ++ map_of (rev (map (\<lambda>x. (idKey h (snd x), snd x)) xs))"
proof (induction xs arbitrary: ids)
  case Nil
  then show ?case by simp
next
  case (Cons x xs)
  have "addId h ids x ++ map_of (rev (map (\<lambda>x. (idKey h (snd x), snd x)) xs)) =
        ids ++ (map_of [(idKey h (snd x), snd x)] ++ map_of (rev (map (\<lambda>x. (idKey h (snd x), snd x)) xs)))"
    by (auto simp: addId_def map_add_def fun_eq_iff split: option.splits)
  then show ?case
    by (simp add: Cons.IH)
qed

lemma set_allItems:
  "(t, a) \<in> set (allItems entries) \<longleftrightarrow> (\<exists>es. (t, ItemArray es) \<in> set entries \<and> Object a \<in> set es)"
  by (induction entries) (auto simp: allItems_def itemsOf_def set_objects split: category.splits)

lemma set_arraysOf: "(t, es) \<in> set (arraysOf entries) \<longleftrightarrow> (t, ItemArray es) \<in> set entries"
  by (induction entries)
     (auto simp: arraysOf_def map_filter_Cons map_filter_Nil split: category.splits)

lemma fst_arraysOf:
  "map fst (arraysOf entries) =
   map fst (filter (\<lambda>e. case snd e of ItemArray es \<Rightarrow> True | _ \<Rightarrow> False) entries)"
  by (induction entries)
     (auto simp: arraysOf_def map_filter_Cons map_filter_Nil split: category.splits)

lemma distinct_arraysOf: "distinct (map fst entries) \<Longrightarrow> distinct (map fst (arraysOf entries))"
  unfolding fst_arraysOf by (rule distinct_map_filter)

lemma allObjects_array:
  "allObjects entries \<Longrightarrow> (t, ItemArray es) \<in> set entries \<Longrightarrow> NonObject \<notin> set es"
  by (force simp: allObjects_def list_all_iff)

lemma allObjects_category: "allObjects entries \<Longrightarrow> (t, NullCategory) \<notin> set entries"
  by (force simp: allObjects_def list_all_iff)

text \<open>The index that \<^verbatim>\<open>fetchUrl\<close> builds, in closed form.\<close>

lemma buildIndex_Present:
  "buildIndex (h, Present json) =
     (if allObjects (nsi json)
      then Inr (foldl tagOne h (allItems (nsi json)),
                \<lparr>byPath = map_of (rev (arraysOf (nsi json))),
                   byId = map_of (rev (map (\<lambda>x. (idKey h (snd x), snd x)) (allItems (nsi json)))),
                   meta = meta_json json\<rparr>)
      else Inl TypeError)"
  by (simp add: buildIndex_def populate_fold foldl_addPath foldl_addId)

lemma built:
  assumes "buildIndex (h, Present json) = Inr (h', idx)"
  shows "allObjects (nsi json)" and "h' = foldl tagOne h (allItems (nsi json))"
    and "byPath idx = map_of (rev (arraysOf (nsi json)))"
    and "byId idx = map_of (rev (map (\<lambda>x. (idKey h (snd x), snd x)) (allItems (nsi json))))"
    and "meta idx = meta_json json"
  using assms by (auto simp: buildIndex_Present split: if_splits)

lemma built_total:
  "allObjects (nsi json) \<Longrightarrow> \<exists>h' idx. buildIndex (h, Present json) = Inr (h', idx)"
  by (simp add: buildIndex_Present)

lemma owner_unique:
  assumes "distinct (map snd (allItems entries))"
    and "(t1, a) \<in> set (allItems entries)" and "(t2, a) \<in> set (allItems entries)"
  shows "t1 = t2"
proof -
  have "distinct (map fst (map prod.swap (allItems entries)))"
    using assms(1) by (simp add: comp_def)
  moreover have "(a, t1) \<in> set (map prod.swap (allItems entries))"
    "(a, t2) \<in> set (map prod.swap (allItems entries))"
    using assms(2,3) by force+
  ultimately show ?thesis by (rule eq_key_imp_eq_value)
qed

lemma byPath_built:
  assumes "parsedTree (nsi json)" and "buildIndex (h, Present json) = Inr (h', idx)"
  shows "byPath idx t = Some es \<longleftrightarrow> (t, ItemArray es) \<in> set (nsi json)"
proof -
  have "distinct (map fst (nsi json))" using assms(1) by (simp add: parsedTree_def)
  then have "distinct (map fst (rev (arraysOf (nsi json))))"
    using distinct_arraysOf by (simp add: rev_map[symmetric])
  then have "map_of (rev (arraysOf (nsi json))) t = Some es \<longleftrightarrow>
      (t, es) \<in> set (rev (arraysOf (nsi json)))"
    by (rule map_of_eq_Some_iff)
  then show ?thesis
    by (simp add: built(3)[OF assms(2)] set_arraysOf)
qed

lemma byId_built:
  assumes "buildIndex (h, Present json) = Inr (h', idx)" and "byId idx i = Some a"
  shows "toString (item_id (h a)) = i \<and> (\<exists>t. (t, a) \<in> set (allItems (nsi json)))"
proof -
  have "map_of (rev (map (\<lambda>x. (idKey h (snd x), snd x)) (allItems (nsi json)))) i = Some a"
    using assms(2) by (simp add: built(4)[OF assms(1)])
  then have "(i, a) \<in> set (rev (map (\<lambda>x. (idKey h (snd x), snd x)) (allItems (nsi json))))"
    by (rule map_of_SomeD)
  then have "(i, a) \<in> set (map (\<lambda>x. (idKey h (snd x), snd x)) (allItems (nsi json)))"
    by simp
  then show ?thesis by (auto simp: idKey_def)
qed

lemma byId_built_last:
  assumes "buildIndex (h, Present json) = Inr (h', idx)"
    and "allItems (nsi json) = pre @ (t, a) # post"
    and "\<forall>x\<in>set post. toString (item_id (h (snd x))) \<noteq> toString (item_id (h a))"
  shows "byId idx (toString (item_id (h a))) = Some a"
proof -
  let ?f = "\<lambda>x. (idKey h (snd x), snd x)"
  have "idKey h a \<notin> fst ` set (rev (map ?f post))"
    using assms(3) by (auto simp: idKey_def)
  then have "map_of (rev (map ?f post)) (idKey h a) = None"
    by (simp add: map_of_eq_None_iff)
  moreover have "rev (map ?f (allItems (nsi json))) =
      rev (map ?f post) @ (idKey h a, a) # rev (map ?f pre)"
    by (simp add: assms(2))
  ultimately have "map_of (rev (map ?f (allItems (nsi json)))) (idKey h a) = Some a"
    by (simp add: map_add_def)
  then show ?thesis
    by (simp add: built(4)[OF assms(1)] idKey_def)
qed

lemma byId_built_defined:
  assumes "buildIndex (h, Present json) = Inr (h', idx)" and "(t, a) \<in> set (allItems (nsi json))"
  shows "\<exists>a'. byId idx (toString (item_id (h a))) = Some a' \<and>
              toString (item_id (h a')) = toString (item_id (h a))"
proof -
  let ?f = "\<lambda>x. (idKey h (snd x), snd x)"
  have "idKey h a \<in> fst ` set (rev (map ?f (allItems (nsi json))))"
    using assms(2) by force
  then have "map_of (rev (map ?f (allItems (nsi json)))) (idKey h a) \<noteq> None"
    by (simp only: map_of_eq_None_iff not_not)
  then obtain a' where "map_of (rev (map ?f (allItems (nsi json)))) (idKey h a) = Some a'"
    by blast
  then have a': "byId idx (toString (item_id (h a))) = Some a'"
    by (simp add: built(4)[OF assms(1)] idKey_def)
  then have "toString (item_id (h a')) = toString (item_id (h a))"
    using byId_built[OF assms(1)] by blast
  with a' show ?thesis by blast
qed

lemma heap_built:
  assumes "parsedTree (nsi json)" and "buildIndex (h, Present json) = Inr (h', idx)"
    and "(t, a) \<in> set (allItems (nsi json))"
  shows "h' a = (h a)\<lparr>item_tkv := JString t\<rparr>"
proof -
  have "distinct (map snd (allItems (nsi json)))" using assms(1) by (simp add: parsedTree_def)
  from foldl_tagOne_tagged[OF this assms(3)] show ?thesis
    by (simp add: built(2)[OF assms(2)])
qed

lemma owner_built_unique:
  assumes "parsedTree (nsi json)"
    and "(t1, a) \<in> set (allItems (nsi json))" and "(t2, a) \<in> set (allItems (nsi json))"
  shows "t1 = t2"
  using owner_unique[OF _ assms(2,3)] assms(1) by (simp add: parsedTree_def)

lemma category_unique:
  assumes "parsedTree (nsi json)" and "(t, c1) \<in> set (nsi json)" and "(t, c2) \<in> set (nsi json)"
  shows "c1 = c2"
  using eq_key_imp_eq_value[OF _ assms(2,3)] assms(1) by (simp add: parsedTree_def)

section \<open>Properties of the query-string codec\<close>

lemma splitOn_nonempty: "splitOn sep s \<noteq> []"
  by (induction s) (auto split: list.splits)

lemma splitOn_noSep: "sep \<notin> set s \<Longrightarrow> splitOn sep s = [s]"
  by (induction s) auto

lemma splitOn_append: "sep \<notin> set a \<Longrightarrow> splitOn sep (a @ sep # b) = a # splitOn sep b"
  by (induction a) auto

lemma joinWith_Cons: "xs \<noteq> [] \<Longrightarrow> joinWith sep (x # xs) = x @ sep @ joinWith sep xs"
  by (cases xs) simp_all

lemma splitOn_joinWith:
  "xs \<noteq> [] \<Longrightarrow> \<forall>x\<in>set xs. c \<notin> set x \<Longrightarrow> splitOn c (joinWith [c] xs) = xs"
proof (induction xs)
  case Nil
  then show ?case by simp
next
  case (Cons x xs)
  show ?case
  proof (cases "xs = []")
    case True
    then show ?thesis using Cons.prems by (simp add: splitOn_noSep)
  next
    case False
    then have "splitOn c (joinWith [c] xs) = xs" using Cons by simp
    then show ?thesis using False Cons.prems by (simp add: joinWith_Cons splitOn_append)
  qed
qed

lemma splitOn_parts_noSep: "p \<in> set (splitOn sep s) \<Longrightarrow> sep \<notin> set p"
proof (induction s arbitrary: p)
  case Nil
  then show ?case by simp
next
  case (Cons c cs)
  then show ?case
    by (cases "splitOn sep cs") (auto split: if_splits)
qed

lemma joinWith_splitOn: "joinWith [sep] (splitOn sep s) = s"
proof (induction s)
  case Nil
  then show ?case by simp
next
  case (Cons c cs)
  show ?case
  proof (cases "splitOn sep cs")
    case Nil
    then show ?thesis using splitOn_nonempty[of sep cs] by simp
  next
    case (Cons p ps)
    then show ?thesis using Cons.IH splitOn_nonempty[of sep cs]
      by (cases ps) (auto simp: joinWith_Cons)
  qed
qed

lemma splitOn_single: "splitOn sep s = [v] \<Longrightarrow> s = v"
  using joinWith_splitOn[of sep s] by simp

lemma splitOn_two:
  "length (splitOn sep s) = 2 \<longleftrightarrow> (\<exists>k v. s = k @ sep # v \<and> sep \<notin> set k \<and> sep \<notin> set v)"
proof
  assume "length (splitOn sep s) = 2"
  then show "\<exists>k v. s = k @ sep # v \<and> sep \<notin> set k \<and> sep \<notin> set v"
  proof (induction s)
    case Nil
    then show ?case by simp
  next
    case (Cons c cs)
    show ?case
    proof (cases "c = sep")
      case True
      then have "length (splitOn sep cs) = 1" using Cons.prems by simp
      then obtain v where v: "splitOn sep cs = [v]" by (cases "splitOn sep cs") auto
      then have "sep \<notin> set v" using splitOn_parts_noSep[of v sep cs] by simp
      moreover have "cs = v"
        using v by (rule splitOn_single)
      ultimately show ?thesis using True by (intro exI[of _ "[]"] exI[of _ v]) simp
    next
      case False
      then have "length (splitOn sep cs) = 2"
        using Cons.prems by (cases "splitOn sep cs") auto
      then obtain k v where "cs = k @ sep # v" "sep \<notin> set k" "sep \<notin> set v"
        using Cons.IH by blast
      then show ?thesis using False by (intro exI[of _ "c # k"] exI[of _ v]) simp
    qed
  qed
next
  assume "\<exists>k v. s = k @ sep # v \<and> sep \<notin> set k \<and> sep \<notin> set v"
  then show "length (splitOn sep s) = 2"
    by (auto simp: splitOn_append splitOn_noSep)
qed

lemma splitOn_pair: "sep \<notin> set k \<Longrightarrow> sep \<notin> set v \<Longrightarrow> splitOn sep (k @ sep # v) = [k, v]"
  by (simp add: splitOn_append splitOn_noSep)

lemma percentEscape_chars: "b < 256 \<Longrightarrow> \<forall>c\<in>set (percentEscape b). uriUnescaped c \<or> c = 0x25"
proof -
  assume "b < 256"
  then have "b div 16 < 16" by (simp add: less_mult_imp_div_less)
  then show ?thesis
    by (simp add: percentEscape_def uriUnescaped_hexDigit)
qed

lemma escapeCodePoint_chars:
  assumes "cp \<le> 0x10FFFF"
  shows "\<forall>c\<in>set (escapeCodePoint cp). uriUnescaped c \<or> c = 0x25"
proof -
  have "\<forall>b\<in>set (utf8Encode cp). b < 256"
    using utf8Encode_bytes[OF assms] by (simp add: list_all_iff)
  then show ?thesis
    using percentEscape_chars by (auto simp: escapeCodePoint_def)
qed

lemma escapeCodePoint_length: "3 \<le> length (escapeCodePoint cp)"
  by (simp add: escapeCodePoint_def utf8Encode_def percentEscape_def)

lemma uriEncode_chars: "uriEncode s = Inr e \<Longrightarrow> \<forall>c\<in>set e. uriUnescaped c \<or> c = 0x25"
proof (induction s arbitrary: e rule: uriEncode.induct)
  case 1
  then show ?case by simp
next
  case (2 c cs)
  show ?case
  proof (cases "uriUnescaped c")
    case True
    with "2.prems" obtain e' where e': "uriEncode cs = Inr e'" "e = c # e'"
      by (auto simp: map_result_Inr_iff)
    then show ?thesis using "2.IH"(1)[OF True e'(1)] True by simp
  next
    case False
    note nu = this
    show ?thesis
    proof (cases "isTrailingSurrogate c")
      case True
      with "2.prems" nu show ?thesis by simp
    next
      case False
      note nt = this
      show ?thesis
      proof (cases "isLeadingSurrogate c")
        case True
        with "2.prems" nu nt obtain d ds e' where
          d: "cs = d # ds" "isTrailingSurrogate d" "uriEncode ds = Inr e'"
            "e = escapeCodePoint (surrogatePairToCodePoint c d) @ e'"
          by (auto simp: map_result_Inr_iff split: list.splits if_splits)
        show ?thesis
          using "2.IH"(2)[OF nu nt True d(1) d(2) d(3)]
            escapeCodePoint_chars[OF surrogatePair_range(1)[OF True d(2)]]
          by (auto simp: d(4))
      next
        case False
        with "2.prems" nu nt obtain e' where
          e': "uriEncode cs = Inr e'" "e = escapeCodePoint (unat c) @ e'"
          by (auto simp: map_result_Inr_iff)
        have "unat c \<le> 0x10FFFF" using unat_jschar[of c] by simp
        then show ?thesis
          using "2.IH"(3)[OF nu nt False e'(1)] escapeCodePoint_chars[of "unat c"]
          by (auto simp: e'(2))
      qed
    qed
  qed
qed

lemma uriEncode_length:
  "uriEncode s = Inr e \<Longrightarrow> length s \<le> length e \<and> (\<not> list_all uriUnescaped s \<longrightarrow> length s < length e)"
proof (induction s arbitrary: e rule: uriEncode.induct)
  case 1
  then show ?case by simp
next
  case (2 c cs)
  show ?case
  proof (cases "uriUnescaped c")
    case True
    with "2.prems" obtain e' where e': "uriEncode cs = Inr e'" "e = c # e'"
      by (auto simp: map_result_Inr_iff)
    then show ?thesis using "2.IH"(1)[OF True e'(1)] True by simp
  next
    case False
    note nu = this
    show ?thesis
    proof (cases "isTrailingSurrogate c")
      case True
      with "2.prems" nu show ?thesis by simp
    next
      case False
      note nt = this
      show ?thesis
      proof (cases "isLeadingSurrogate c")
        case True
        with "2.prems" nu nt obtain d ds e' where
          d: "cs = d # ds" "isTrailingSurrogate d" "uriEncode ds = Inr e'"
            "e = escapeCodePoint (surrogatePairToCodePoint c d) @ e'"
          by (auto simp: map_result_Inr_iff split: list.splits if_splits)
        show ?thesis
          using "2.IH"(2)[OF nu nt True d(1) d(2) d(3)]
            escapeCodePoint_length[of "surrogatePairToCodePoint c d"]
          by (simp add: d(1,4))
      next
        case False
        with "2.prems" nu nt obtain e' where
          e': "uriEncode cs = Inr e'" "e = escapeCodePoint (unat c) @ e'"
          by (auto simp: map_result_Inr_iff)
        show ?thesis
          using "2.IH"(3)[OF nu nt False e'(1)] escapeCodePoint_length[of "unat c"]
          by (simp add: e'(2))
      qed
    qed
  qed
qed

lemma uriEncode_wellFormed: "isWellFormed s \<Longrightarrow> \<exists>e. uriEncode s = Inr e"
proof (induction s rule: uriEncode.induct)
  case 1
  then show ?case by simp
next
  case (2 c cs)
  show ?case
  proof (cases "uriUnescaped c")
    case True
    then have "isWellFormed cs"
      using "2.prems" uriUnescaped_special(6,7)[OF True] by simp
    then show ?thesis using "2.IH"(1)[OF True] True by (auto simp: map_result_Inr)
  next
    case False
    note nu = this
    have nt: "\<not> isTrailingSurrogate c" using "2.prems" by (auto split: if_splits)
    show ?thesis
    proof (cases "isLeadingSurrogate c")
      case True
      with "2.prems" nt obtain d ds where d: "cs = d # ds" "isTrailingSurrogate d" "isWellFormed ds"
        by (auto split: list.splits)
      then show ?thesis
        using "2.IH"(2)[OF nu nt True d(1) d(2) d(3)] nu nt True by (auto simp: map_result_Inr)
    next
      case False
      then have "isWellFormed cs" using "2.prems" nt by simp
      then show ?thesis
        using "2.IH"(3)[OF nu nt False] nu nt False by (auto simp: map_result_Inr)
    qed
  qed
qed

lemma uriEncode_special:
  assumes "uriEncode s = Inr e"
  shows "0x26 \<notin> set e" "0x3D \<notin> set e" "0x3F \<notin> set e" "0x23 \<notin> set e"
  using uriEncode_chars[OF assms] uriUnescaped_special by fastforce+

lemma js_chars: "js ''='' = [0x3D]" "js ''&'' = [0x26]" "js ''?'' = [0x3F]" "js ''#'' = [0x23]"
  by (simp_all add: js_def)

lemma bind_result_Inr_iff: "bind_result r f = Inr y \<longleftrightarrow> (\<exists>x. r = Inr x \<and> f x = Inr y)"
  by (cases r) (simp_all add: bind_result_def)

lemma qsString_pair_Inr:
  "qsString_pair ob key = Inr pr \<longleftrightarrow>
   (\<exists>ek ev. uriEncode key = Inr ek \<and> uriEncode (toString (getProp ob key)) = Inr ev \<and>
            pr = ek @ 0x3D # ev)"
  by (auto simp: qsString_pair_def bind_result_Inr_iff encodeURIComponent_def toString_def js_chars)

lemma stringQs_pair_encoded:
  assumes "uriEncode key = Inr ek" and "uriEncode val = Inr ev"
  shows "stringQs_pair acc (ek @ 0x3D # ev) = Inr (setProp ek (JString val) acc)"
proof -
  have "splitOn 0x3D (ek @ 0x3D # ev) = [ek, ev]"
    using uriEncode_special(2)[OF assms(1)] uriEncode_special(2)[OF assms(2)]
    by (rule splitOn_pair)
  moreover have "decodeURIComponent ev = Inr val"
    using uriEncode_roundtrip[OF assms(2)] by (simp add: decodeURIComponent_def)
  ultimately show ?thesis
    by (simp add: stringQs_pair_def map_result_Inr)
qed

lemma map_results_Cons_Inr:
  "map_results f (x # xs) = Inr ys \<longleftrightarrow>
   (\<exists>y ys'. f x = Inr y \<and> map_results f xs = Inr ys' \<and> ys = y # ys')"
  by (auto simp: bind_result_Inr_iff map_result_Inr_iff)

lemma reduce_pairs:
  "map_results (qsString_pair ob) ks = Inr prs \<Longrightarrow>
   reduce_result stringQs_pair prs acc =
     Inr (foldl (\<lambda>a k. setProp (encoded k) (JString (toString (getProp ob k))) a) acc ks)"
proof (induction ks arbitrary: prs acc)
  case Nil
  then show ?case by simp
next
  case (Cons k ks)
  from Cons.prems obtain pr prs' where p: "qsString_pair ob k = Inr pr"
    "map_results (qsString_pair ob) ks = Inr prs'" "prs = pr # prs'"
    unfolding map_results_Cons_Inr by blast
  from p(1) obtain ek ev where e: "uriEncode k = Inr ek"
    "uriEncode (toString (getProp ob k)) = Inr ev" "pr = ek @ 0x3D # ev"
    unfolding qsString_pair_Inr by blast
  have "stringQs_pair acc pr = Inr (setProp (encoded k) (JString (toString (getProp ob k))) acc)"
    using stringQs_pair_encoded[OF e(1,2)] e by (simp add: encoded_def)
  then show ?case
    using Cons.IH[OF p(2)] by (simp add: p(3) bind_result_Inr)
qed

lemma pairs_shape:
  "map_results (qsString_pair ob) ks = Inr prs \<Longrightarrow>
   length prs = length ks \<and>
   (\<forall>pr\<in>set prs. 0x26 \<notin> set pr \<and> pr \<noteq> [] \<and> hd pr \<noteq> 0x3F \<and> hd pr \<noteq> 0x23)"
proof (induction ks arbitrary: prs)
  case Nil
  then show ?case by simp
next
  case (Cons k ks)
  from Cons.prems obtain pr prs' where p: "qsString_pair ob k = Inr pr"
    "map_results (qsString_pair ob) ks = Inr prs'" "prs = pr # prs'"
    unfolding map_results_Cons_Inr by blast
  from p(1) obtain ek ev where e: "uriEncode k = Inr ek"
    "uriEncode (toString (getProp ob k)) = Inr ev" "pr = ek @ 0x3D # ev"
    unfolding qsString_pair_Inr by blast
  have "0x26 \<notin> set pr"
    using uriEncode_special(1)[OF e(1)] uriEncode_special(1)[OF e(2)] by (simp add: e(3))
  moreover have "hd pr \<noteq> 0x3F \<and> hd pr \<noteq> 0x23"
    using uriEncode_special(3,4)[OF e(1)] by (cases ek) (simp_all add: e(3))
  moreover have "pr \<noteq> []" by (simp add: e(3))
  ultimately show ?case using Cons.IH[OF p(2)] by (simp add: p(3))
qed

lemma hd_joinWith: "xs \<noteq> [] \<Longrightarrow> hd xs \<noteq> [] \<Longrightarrow> hd (joinWith sep xs) = hd (hd xs)"
  by (induction sep xs rule: joinWith.induct) simp_all

lemma stringQs_qsString:
  assumes "qsString ob = Inr s"
  shows "stringQs s =
    Inr (foldl (\<lambda>a k. setProp (encoded k) (JString (toString (getProp ob k))) a) [] (objectKeys ob))"
proof -
  from assms obtain prs where prs: "map_results (qsString_pair ob) (objectKeys ob) = Inr prs"
    "s = joinWith [0x26] prs"
    by (auto simp: qsString_def map_result_Inr_iff js_chars)
  note shape = pairs_shape[OF prs(1)]
  show ?thesis
  proof (cases "prs = []")
    case True
    then have "objectKeys ob = []" using shape by simp
    then show ?thesis using True by (simp add: prs(2) stringQs_def stringQs_pair_def bind_result_Inr)
  next
    case False
    then have "hd s = hd (hd prs)" using shape by (simp add: prs(2) hd_joinWith)
    moreover have "s \<noteq> []" using False shape by (cases prs) (auto simp: prs(2) joinWith_Cons split: if_splits elim: joinWith.elims)
    moreover have "hd (hd prs) \<noteq> 0x3F \<and> hd (hd prs) \<noteq> 0x23" using False shape by simp
    ultimately have "dropWhile (\<lambda>c. c = 0x3F \<or> c = 0x23) s = s"
      by (cases s) auto
    moreover have "splitOn 0x26 s = prs"
      using False shape by (simp add: prs(2) splitOn_joinWith)
    ultimately show ?thesis
      by (simp add: stringQs_def reduce_pairs[OF prs(1)])
  qed
qed

lemma keys_foldl_setProp_proto:
  "js ''__proto__'' \<notin> fst ` set acc \<Longrightarrow>
   js ''__proto__'' \<notin> fst ` set (foldl (\<lambda>a k. setProp (G k) (F k) a) acc ks)"
  by (induction ks arbitrary: acc) (simp_all add: keys_setProp_proto)

lemma map_of_foldl_setProp:
  "js ''__proto__'' \<notin> fst ` set acc \<Longrightarrow>
   map_of (foldl (\<lambda>a k. setProp (G k) (F k) a) acc ks) =
   map_of acc ++ map_of (rev (map (\<lambda>k. (G k, F k)) (filter (\<lambda>k. G k \<noteq> js ''__proto__'') ks)))"
proof (induction ks arbitrary: acc)
  case Nil
  then show ?case by simp
next
  case (Cons k ks)
  let ?ks = "filter (\<lambda>k. G k \<noteq> js ''__proto__'') ks"
  let ?M = "map_of (rev (map (\<lambda>k. (G k, F k)) ?ks))"
  have p: "js ''__proto__'' \<notin> fst ` set (setProp (G k) (F k) acc)"
    using Cons.prems by (rule keys_setProp_proto)
  have ih: "map_of (foldl (\<lambda>a k. setProp (G k) (F k) a) (setProp (G k) (F k) acc) ks) =
        map_of (setProp (G k) (F k) acc) ++ ?M"
    by (rule Cons.IH[OF p])
  show ?case
  proof (cases "G k = js ''__proto__''")
    case True
    then have "setProp (G k) (F k) acc = acc"
      using Cons.prems by (simp add: setProp_proto)
    then show ?thesis using ih True by simp
  next
    case False
    have "map_of (setProp (G k) (F k) acc) ++ ?M = (map_of acc)(G k \<mapsto> F k) ++ ?M"
      by (simp only: map_of_setProp[OF False])
    also have "\<dots> = map_of acc ++ (map_of [(G k, F k)] ++ ?M)"
      by (auto simp: map_add_def fun_eq_iff split: option.splits)
    finally show ?thesis using ih False by simp
  qed
qed

lemma keys_foldl_setProp:
  "js ''__proto__'' \<notin> fst ` set acc \<Longrightarrow>
   fst ` set (foldl (\<lambda>a k. setProp (G k) (F k) a) acc ks) =
   fst ` set acc \<union> (G ` set ks - {js ''__proto__''})"
proof (induction ks arbitrary: acc)
  case Nil
  then show ?case by simp
next
  case (Cons k ks)
  have p: "js ''__proto__'' \<notin> fst ` set (setProp (G k) (F k) acc)"
    using Cons.prems by (rule keys_setProp_proto)
  show ?case
  proof (cases "G k = js ''__proto__''")
    case True
    then have "setProp (G k) (F k) acc = acc"
      using Cons.prems by (simp add: setProp_proto)
    then show ?thesis using Cons.IH[OF p] True by auto
  next
    case False
    then show ?thesis using Cons.IH[OF p] by (auto simp: keys_setProp)
  qed
qed

lemma distinct_foldl_setProp:
  "distinct (map fst acc) \<Longrightarrow> distinct (map fst (foldl (\<lambda>a k. setProp (G k) (F k) a) acc ks))"
  by (induction ks arbitrary: acc) (simp_all add: distinct_setProp)

lemma map_of_rev_inj:
  assumes "inj_on G (set ks)" and "k \<in> set ks"
  shows "map_of (rev (map (\<lambda>k. (G k, F k)) ks)) (G k) = Some (F k)"
  using assms
proof (induction ks)
  case Nil
  then show ?case by simp
next
  case (Cons x xs)
  show ?case
  proof (cases "k \<in> set xs")
    case True
    have "inj_on G (set xs)" using Cons.prems(1) by (simp add: inj_on_def)
    then have "map_of (rev (map (\<lambda>k. (G k, F k)) xs)) (G k) = Some (F k)"
      using True by (rule Cons.IH)
    then show ?thesis by (simp add: map_add_def)
  next
    case False
    then have k: "k = x" using Cons.prems(2) by simp
    have "G x \<notin> G ` set xs"
      using Cons.prems(1) False k by (auto simp: inj_on_def)
    then have "G x \<notin> fst ` set (rev (map (\<lambda>k. (G k, F k)) xs))"
      by (auto simp: image_iff)
    then have "map_of (rev (map (\<lambda>k. (G k, F k)) xs)) (G x) = None"
      by (simp add: map_of_eq_None_iff)
    then have "(map_of [(G x, F x)] ++ map_of (rev (map (\<lambda>k. (G k, F k)) xs))) (G x) = Some (F x)"
      by (simp add: map_add_def)
    then show ?thesis by (simp add: k)
  qed
qed

lemma map_of_rev_keyed:
  assumes "\<forall>k\<in>set ks. G k = u \<longrightarrow> k = u"
  shows "map_of (rev (map (\<lambda>k. (G k, F k)) ks)) u =
         (if u \<in> set ks \<and> G u = u then Some (F u) else None)"
  using assms
proof (induction ks)
  case Nil
  then show ?case by simp
next
  case (Cons k ks)
  then show ?case
    by (auto simp: map_add_def split: option.splits)
qed

lemma set_objectKeys: "set (objectKeys ob) = fst ` set ob"
proof -
  have "snd ` set (List.map_filter (\<lambda>k. map_option (\<lambda>n. (n, k)) (arrayIndex k)) (map fst ob)) =
        {k \<in> fst ` set ob. arrayIndex k \<noteq> None}"
    by (induction ob) (auto simp: map_filter_Cons map_filter_Nil split: option.splits)
  then show ?thesis
    by (auto simp: objectKeys_def)
qed

lemma map_results_total:
  "\<forall>x\<in>set xs. \<exists>y. f x = Inr y \<Longrightarrow> \<exists>ys. map_results f xs = Inr ys"
proof (induction xs)
  case Nil
  then show ?case by simp
next
  case (Cons x xs)
  then obtain y ys where "f x = Inr y" "map_results f xs = Inr ys" by auto
  then show ?case by (simp add: bind_result_Inr map_result_Inr)
qed

lemma isWellFormed_undefined: "isWellFormed (js ''undefined'')"
  by code_simp

lemma getProp_wellFormed: "wellFormedObj ob \<Longrightarrow> isWellFormed (toString (getProp ob k))"
proof (cases "map_of ob k")
  case None
  then show ?thesis by (simp add: getProp_def toString_def isWellFormed_undefined)
next
  case (Some v)
  assume "wellFormedObj ob"
  moreover have "(k, v) \<in> set ob" using Some by (rule map_of_SomeD)
  ultimately show ?thesis using Some
    by (auto simp: getProp_def wellFormedObj_def list_all_iff)
qed

lemma qsString_total:
  assumes "wellFormedObj ob"
  shows "\<exists>s. qsString ob = Inr s"
proof -
  have "\<exists>pr. qsString_pair ob k = Inr pr" if "k \<in> set (objectKeys ob)" for k
  proof -
    have "isWellFormed k"
      using that assms by (auto simp: set_objectKeys wellFormedObj_def list_all_iff)
    then obtain ek where "uriEncode k = Inr ek" using uriEncode_wellFormed by blast
    moreover obtain ev where "uriEncode (toString (getProp ob k)) = Inr ev"
      using uriEncode_wellFormed[OF getProp_wellFormed[OF assms]] by blast
    ultimately show ?thesis unfolding qsString_pair_Inr by blast
  qed
  then obtain prs where "map_results (qsString_pair ob) (objectKeys ob) = Inr prs"
    using map_results_total[of "objectKeys ob" "qsString_pair ob"] by blast
  then show ?thesis by (simp add: qsString_def map_result_Inr)
qed

lemma encoded_unescaped: "list_all uriUnescaped k \<Longrightarrow> encoded k = k"
  by (simp add: encoded_def uriEncode_unescaped)

lemma encoded_eq_unescaped:
  assumes "isWellFormed k" and "list_all uriUnescaped u" and "encoded k = u"
  shows "k = u"
proof -
  obtain e where e: "uriEncode k = Inr e" using uriEncode_wellFormed[OF assms(1)] by blast
  then have "e = u" using assms(3) by (simp add: encoded_def)
  then have "uriDecode u = Inr k" using uriEncode_roundtrip[OF e] by simp
  moreover have "uriDecode u = Inr u"
    using uriEncode_roundtrip[OF uriEncode_unescaped[OF assms(2)]] .
  ultimately show ?thesis by simp
qed

lemma unescaped_wellFormed: "list_all uriUnescaped k \<Longrightarrow> isWellFormed k"
  by (induction k) (auto dest: uriUnescaped_special(6,7))

lemma getProp_paramsOf:
  "(k, v) \<in> set p \<Longrightarrow> distinct (map fst p) \<Longrightarrow> getProp (paramsOf p) k = JString v"
proof -
  assume a: "(k, v) \<in> set p" "distinct (map fst p)"
  have "map fst (paramsOf p) = map fst p" by (simp add: paramsOf_def comp_def)
  then have "distinct (map fst (paramsOf p))" using a(2) by simp
  moreover have "(k, JString v) \<in> set (paramsOf p)" using a(1) by (force simp: paramsOf_def)
  ultimately show ?thesis by (rule getProp_distinct)
qed

lemma set_setProp: "set (setProp k v ob) \<subseteq> insert (k, v) (set ob)"
  by (induction ob) auto

lemma setProp_mem: "k \<noteq> js ''__proto__'' \<Longrightarrow> (k, v) \<in> set (setProp k v ob)"
  by (induction ob) auto

lemma stringQs_pair_cases:
  assumes "stringQs_pair acc seg = Inr acc'"
  shows "(\<exists>k v s. seg = k @ 0x3D # v \<and> 0x3D \<notin> set k \<and> 0x3D \<notin> set v \<and>
            decodeURIComponent v = Inr s \<and> acc' = setProp k (JString s) acc) \<or>
         ((\<nexists>k v. seg = k @ 0x3D # v \<and> 0x3D \<notin> set k \<and> 0x3D \<notin> set v) \<and> acc' = acc)"
proof (cases "length (splitOn 0x3D seg) = 2")
  case True
  then obtain k v where kv: "seg = k @ 0x3D # v" "0x3D \<notin> set k" "0x3D \<notin> set v"
    unfolding splitOn_two by blast
  then have "splitOn 0x3D seg = [k, v]" by (simp add: splitOn_pair)
  then show ?thesis
    using assms kv by (auto simp: stringQs_pair_def Let_def map_result_Inr_iff)
next
  case False
  then have "acc' = acc" using assms by (simp add: stringQs_pair_def Let_def)
  moreover have "\<nexists>k v. seg = k @ 0x3D # v \<and> 0x3D \<notin> set k \<and> 0x3D \<notin> set v"
    using False unfolding splitOn_two by blast
  ultimately show ?thesis by blast
qed

lemma reduce_proto:
  "reduce_result stringQs_pair segs acc = Inr ob \<Longrightarrow> js ''__proto__'' \<notin> fst ` set acc \<Longrightarrow>
   js ''__proto__'' \<notin> fst ` set ob"
proof (induction segs arbitrary: acc)
  case Nil
  then show ?case by simp
next
  case (Cons seg segs)
  from Cons.prems(1) obtain acc' where a: "stringQs_pair acc seg = Inr acc'"
    "reduce_result stringQs_pair segs acc' = Inr ob"
    by (auto simp: bind_result_Inr_iff)
  have "js ''__proto__'' \<notin> fst ` set acc'"
    using stringQs_pair_cases[OF a(1)] Cons.prems(2) keys_setProp_proto by blast
  then show ?case by (rule Cons.IH[OF a(2)])
qed

lemma reduce_keys:
  "reduce_result stringQs_pair segs acc = Inr ob \<Longrightarrow> js ''__proto__'' \<notin> fst ` set acc \<Longrightarrow>
   fst ` set ob = fst ` set acc \<union> {k. k \<noteq> js ''__proto__'' \<and> (\<exists>v. keyValueSegment segs k v)}"
proof (induction segs arbitrary: acc)
  case Nil
  then show ?case by (simp add: keyValueSegment_def)
next
  case (Cons seg segs)
  from Cons.prems(1) obtain acc' where a: "stringQs_pair acc seg = Inr acc'"
    "reduce_result stringQs_pair segs acc' = Inr ob"
    by (auto simp: bind_result_Inr_iff)
  have p: "js ''__proto__'' \<notin> fst ` set acc'"
    using stringQs_pair_cases[OF a(1)] Cons.prems(2) keys_setProp_proto by blast
  have ih: "fst ` set ob =
      fst ` set acc' \<union> {k. k \<noteq> js ''__proto__'' \<and> (\<exists>v. keyValueSegment segs k v)}"
    by (rule Cons.IH[OF a(2) p])
  from stringQs_pair_cases[OF a(1)] show ?case
  proof
    assume "\<exists>k v s. seg = k @ 0x3D # v \<and> 0x3D \<notin> set k \<and> 0x3D \<notin> set v \<and>
            decodeURIComponent v = Inr s \<and> acc' = setProp k (JString s) acc"
    then obtain k v s where kv: "seg = k @ 0x3D # v" "0x3D \<notin> set k" "0x3D \<notin> set v"
      "acc' = setProp k (JString s) acc" by blast
    have segs: "{k'. \<exists>v'. keyValueSegment (seg # segs) k' v'} =
          insert k {k'. \<exists>v'. keyValueSegment segs k' v'}"
      using kv(1,2,3) by (auto simp: keyValueSegment_def append_eq_append_conv2 append_eq_Cons_conv Cons_eq_append_conv)
    show ?thesis
    proof (cases "k = js ''__proto__''")
      case True
      then have "acc' = acc" using kv(4) Cons.prems(2) by (simp add: setProp_proto)
      then show ?thesis using ih segs True by auto
    next
      case False
      then have "fst ` set acc' = insert k (fst ` set acc)"
        by (simp add: kv(4) keys_setProp)
      then show ?thesis using ih segs False by auto
    qed
  next
    assume n: "(\<nexists>k v. seg = k @ 0x3D # v \<and> 0x3D \<notin> set k \<and> 0x3D \<notin> set v) \<and> acc' = acc"
    then have "{k'. \<exists>v'. keyValueSegment (seg # segs) k' v'} =
          {k'. \<exists>v'. keyValueSegment segs k' v'}"
      by (auto simp: keyValueSegment_def)
    then show ?thesis using ih n by auto
  qed
qed

lemma reduce_values:
  "reduce_result stringQs_pair segs acc = Inr ob \<Longrightarrow> (k, x) \<in> set ob \<Longrightarrow>
   (k, x) \<in> set acc \<or>
   (\<exists>v s. keyValueSegment segs k v \<and> decodeURIComponent v = Inr s \<and> x = JString s)"
proof (induction segs arbitrary: acc)
  case Nil
  then show ?case by simp
next
  case (Cons seg segs)
  from Cons.prems(1) obtain acc' where a: "stringQs_pair acc seg = Inr acc'"
    "reduce_result stringQs_pair segs acc' = Inr ob"
    by (auto simp: bind_result_Inr_iff)
  have mono: "keyValueSegment segs k v \<Longrightarrow> keyValueSegment (seg # segs) k v" for v
    by (simp add: keyValueSegment_def)
  from Cons.IH[OF a(2) Cons.prems(2)] show ?case
  proof
    assume in_acc': "(k, x) \<in> set acc'"
    from stringQs_pair_cases[OF a(1)] show ?thesis
    proof
      assume "\<exists>k v s. seg = k @ 0x3D # v \<and> 0x3D \<notin> set k \<and> 0x3D \<notin> set v \<and>
            decodeURIComponent v = Inr s \<and> acc' = setProp k (JString s) acc"
      then obtain k0 v s where kv: "seg = k0 @ 0x3D # v" "0x3D \<notin> set k0" "0x3D \<notin> set v"
        "decodeURIComponent v = Inr s" "acc' = setProp k0 (JString s) acc" by blast
      then have "(k, x) = (k0, JString s) \<or> (k, x) \<in> set acc"
        using in_acc' set_setProp[of k0 "JString s" acc] by auto
      then show ?thesis
      proof
        assume "(k, x) = (k0, JString s)"
        then have "keyValueSegment (seg # segs) k v \<and> decodeURIComponent v = Inr s \<and> x = JString s"
          using kv by (simp add: keyValueSegment_def)
        then show ?thesis by blast
      next
        assume "(k, x) \<in> set acc"
        then show ?thesis by simp
      qed
    next
      assume "(\<nexists>k v. seg = k @ 0x3D # v \<and> 0x3D \<notin> set k \<and> 0x3D \<notin> set v) \<and> acc' = acc"
      then show ?thesis using in_acc' by simp
    qed
  next
    assume "\<exists>v s. keyValueSegment segs k v \<and> decodeURIComponent v = Inr s \<and> x = JString s"
    then show ?thesis using mono by blast
  qed
qed

lemma objectKeys_single: "objectKeys [(k, v)] = [k]"
  by (cases "arrayIndex k") (simp_all add: objectKeys_def map_filter_Cons map_filter_Nil)

section \<open>Properties used for the inbound effect\<close>

lemma map_of_deleteProp: "map_of (deleteProp k ob) u = (if u = k then None else map_of ob u)"
  by (induction ob) (auto simp: deleteProp_def)

lemma keys_deleteProp: "fst ` set (deleteProp k ob) = fst ` set ob - {k}"
  by (auto simp: deleteProp_def image_iff)

lemma getProp_setProp:
  "k \<noteq> js ''__proto__'' \<Longrightarrow> getProp (setProp k v ob) u = (if u = k then v else getProp ob u)"
  by (simp add: getProp_def map_of_setProp)

lemma getProp_deleteProp: "getProp (deleteProp k ob) u = (if u = k then JUndefined else getProp ob u)"
  by (simp add: getProp_def map_of_deleteProp)

lemma wellFormedObj_setProp:
  "wellFormedObj ob \<Longrightarrow> isWellFormed k \<Longrightarrow> isWellFormed (toString v) \<Longrightarrow>
   wellFormedObj (setProp k v ob)"
  using set_setProp[of k v ob] by (auto simp: wellFormedObj_def list_all_iff)

lemma wellFormedObj_deleteProp: "wellFormedObj ob \<Longrightarrow> wellFormedObj (deleteProp k ob)"
  by (auto simp: wellFormedObj_def list_all_iff deleteProp_def)

lemma deleteProp_setProp:
  "k \<noteq> u \<Longrightarrow> deleteProp k (setProp u v ob) = setProp u v (deleteProp k ob)"
  by (induction ob) (auto simp: deleteProp_def)

lemma qsString_head:
  assumes "qsString ob = Inr s"
  shows "s = [] \<or> hd s \<noteq> 0x3F"
proof -
  from assms obtain prs where prs: "map_results (qsString_pair ob) (objectKeys ob) = Inr prs"
    "s = joinWith [0x26] prs"
    by (auto simp: qsString_def map_result_Inr_iff js_chars)
  note shape = pairs_shape[OF prs(1)]
  show ?thesis
  proof (cases "prs = []")
    case True
    then show ?thesis by (simp add: prs(2))
  next
    case False
    then have "hd s = hd (hd prs)" using shape by (simp add: prs(2) hd_joinWith)
    then show ?thesis using False shape by simp
  qed
qed

lemma wellFormed_keys:
  "wellFormedObj ob \<Longrightarrow> k \<in> fst ` set ob \<Longrightarrow> isWellFormed k"
  by (auto simp: wellFormedObj_def list_all_iff)

text \<open>What \<^verbatim>\<open>stringQs(qsString(ob))\<close> holds under a key that needs no escaping.\<close>

lemma stringQs_qsString_lookup:
  assumes "wellFormedObj ob" and "qsString ob = Inr s" and "stringQs s = Inr r"
    and "list_all uriUnescaped u" and "u \<noteq> js ''__proto__''"
  shows "map_of r u =
    (if u \<in> fst ` set ob then Some (JString (toString (getProp ob u))) else None)"
proof -
  let ?F = "\<lambda>k. JString (toString (getProp ob k))"
  have r: "r = foldl (\<lambda>a k. setProp (encoded k) (?F k) a) [] (objectKeys ob)"
    using stringQs_qsString[OF assms(2)] assms(3) by simp
  let ?ks = "filter (\<lambda>k. encoded k \<noteq> js ''__proto__'') (objectKeys ob)"
  have "\<forall>k\<in>set ?ks. encoded k = u \<longrightarrow> k = u"
    using wellFormed_keys[OF assms(1)] encoded_eq_unescaped[OF _ assms(4)]
    by (auto simp: set_objectKeys)
  then have "map_of (rev (map (\<lambda>k. (encoded k, ?F k)) ?ks)) u =
      (if u \<in> set ?ks \<and> encoded u = u then Some (?F u) else None)"
    by (rule map_of_rev_keyed)
  then have "map_of r u = (if u \<in> set ?ks \<and> encoded u = u then Some (?F u) else None)"
    unfolding r by (simp add: map_of_foldl_setProp)
  then show ?thesis
    using assms(5) by (simp add: set_objectKeys encoded_unescaped[OF assms(4)])
qed

lemma tkvid_distinct: "distinct [js ''t'', js ''k'', js ''v'', js ''id'']"
  by code_simp

lemma tkvid_ordinary:
  "js ''t'' \<noteq> js ''__proto__''" "js ''k'' \<noteq> js ''__proto__''"
  "js ''v'' \<noteq> js ''__proto__''" "js ''id'' \<noteq> js ''__proto__''"
  by code_simp+

lemma proto_unescaped: "list_all uriUnescaped (js ''__proto__'')"
  by code_simp

text \<open>\<^verbatim>\<open>encodeURIComponent\<close> is one-to-one, and escapes with \<^verbatim>\<open>%\<close>.\<close>

lemma uriEncode_inj: "uriEncode a = Inr e \<Longrightarrow> uriEncode b = Inr e \<Longrightarrow> a = b"
  using uriEncode_roundtrip[of a e] uriEncode_roundtrip[of b e] by simp

lemma tkvid_plain:
  "list_all uriUnescaped (js ''t'')" "list_all uriUnescaped (js ''k'')"
  "list_all uriUnescaped (js ''v'')" "list_all uriUnescaped (js ''id'')"
  by code_simp+

lemma map_results_Inr_all:
  "map_results f xs = Inr ys \<Longrightarrow> x \<in> set xs \<Longrightarrow> \<exists>y. f x = Inr y"
proof (induction xs arbitrary: ys)
  case Nil
  then show ?case by simp
next
  case (Cons a xs)
  from Cons.prems(1) obtain y ys' where "f a = Inr y" "map_results f xs = Inr ys'"
    unfolding map_results_Cons_Inr by blast
  then show ?case using Cons.IH Cons.prems(2) by auto
qed

lemma qsString_keys_encodable:
  assumes "qsString ob = Inr s" and "k \<in> fst ` set ob"
  shows "\<exists>e. uriEncode k = Inr e"
proof -
  from assms(1) obtain prs where "map_results (qsString_pair ob) (objectKeys ob) = Inr prs"
    by (auto simp: qsString_def map_result_Inr_iff)
  moreover have "k \<in> set (objectKeys ob)" using assms(2) by (simp add: set_objectKeys)
  ultimately obtain pr where "qsString_pair ob k = Inr pr"
    using map_results_Inr_all[of "qsString_pair ob" "objectKeys ob" prs k] by blast
  then show ?thesis unfolding qsString_pair_Inr by blast
qed

lemma encoded_Inr: "uriEncode k = Inr e \<Longrightarrow> encoded k = e"
  by (simp add: encoded_def)

lemma uriEncode_escaped:
  assumes "uriEncode k = Inr e" and "\<not> list_all uriUnescaped k"
  shows "e \<noteq> k" and "e \<noteq> js ''__proto__''"
proof -
  show "e \<noteq> k" using uriEncode_length[OF assms(1)] assms(2) by auto
  show "e \<noteq> js ''__proto__''"
  proof
    assume p: "e = js ''__proto__''"
    have "uriEncode (js ''__proto__'') = Inr (js ''__proto__'')"
      using proto_unescaped by (rule uriEncode_unescaped)
    then have "k = js ''__proto__''"
      using assms(1) p uriEncode_inj by blast
    then show False using assms(2) proto_unescaped by simp
  qed
qed

text \<open>What \<^verbatim>\<open>stringQs(qsString(ob))\<close> holds: the entries of \<open>ob\<close> under their encoded keys.\<close>

lemma stringQs_qsString_entries:
  assumes "qsString ob = Inr s"
  shows "\<exists>r. stringQs s = Inr r \<and> distinct (map fst r) \<and>
     fst ` set r = encoded ` fst ` set ob - {js ''__proto__''} \<and>
     (\<forall>k\<in>fst ` set ob. encoded k \<noteq> js ''__proto__'' \<longrightarrow>
        map_of r (encoded k) = Some (JString (toString (getProp ob k))))"
proof -
  let ?F = "\<lambda>k. JString (toString (getProp ob k))"
  let ?R = "foldl (\<lambda>a k. setProp (encoded k) (?F k) a) [] (objectKeys ob)"
  let ?ks = "filter (\<lambda>k. encoded k \<noteq> js ''__proto__'') (objectKeys ob)"
  have r: "stringQs s = Inr ?R" by (rule stringQs_qsString[OF assms])
  have d: "distinct (map fst ?R)" by (rule distinct_foldl_setProp) simp
  have k: "fst ` set ?R = encoded ` fst ` set ob - {js ''__proto__''}"
    by (simp add: keys_foldl_setProp set_objectKeys)
  have inj: "inj_on encoded (set ?ks)"
  proof (rule inj_onI)
    fix a b
    assume a: "a \<in> set ?ks" and b: "b \<in> set ?ks" and e: "encoded a = encoded b"
    obtain ea where ea: "uriEncode a = Inr ea"
      using qsString_keys_encodable[OF assms] a by (auto simp: set_objectKeys)
    obtain eb where eb: "uriEncode b = Inr eb"
      using qsString_keys_encodable[OF assms] b by (auto simp: set_objectKeys)
    have "ea = eb" using e by (simp add: encoded_Inr[OF ea] encoded_Inr[OF eb])
    then show "a = b" using ea eb uriEncode_inj by blast
  qed
  have m: "map_of ?R (encoded k) = Some (?F k)"
    if "k \<in> fst ` set ob" "encoded k \<noteq> js ''__proto__''" for k
  proof -
    have "k \<in> set ?ks" using that by (simp add: set_objectKeys)
    then have "map_of (rev (map (\<lambda>k. (encoded k, ?F k)) ?ks)) (encoded k) = Some (?F k)"
      by (rule map_of_rev_inj[OF inj])
    then show ?thesis by (simp add: map_of_foldl_setProp)
  qed
  from r d k m show ?thesis by blast
qed

section \<open>The outbound effect\<close>

text \<open>
  Claim C7. The outbound effect is idempotent at a fixed point: when the location's search
  string and hash are already the ones that the parameters and the hash encode to, the
  effect calls \<^verbatim>\<open>navigate\<close> no more, whatever the flag and the loading state are; and the
  target of a navigation that the effect does make is the path followed by exactly that
  search string and hash, so a second run that finds them in the location is at the fixed
  point.
\<close>

theorem outbound_idempotent:
  assumes "qsString (outboundParams params) = Inr q"
  shows "(search loc = js ''?'' @ q \<and> hash loc = hashState \<longrightarrow>
            outbound loc indexLoading d params hashState = Inr (None, d)) \<and>
         (outbound loc0 indexLoading0 d0 params hashState = Inr (Some nav, d1) \<longrightarrow>
            to nav = pathname loc0 @ (js ''?'' @ q) @ hashState \<and> replace nav)"
  using assms by (auto simp: outbound_def bind_result_Inr Let_def split: if_splits)

theorem outbound_idempotent_witness:
  "qsString (outboundParams [(js ''k'', JString (js ''cafe'')), (js ''v'', JString (js ''Foo''))]) =
     Inr (js ''t=brands&k=cafe&v=Foo'') \<and>
   outbound \<lparr>pathname = js ''/'', search = js ''?t=brands&k=cafe&v=Foo'', hash = js ''#a1''\<rparr>
     False False [(js ''k'', JString (js ''cafe'')), (js ''v'', JString (js ''Foo''))] (js ''#a1'') =
     Inr (None, False)"
proof -
  let ?p = "[(js ''k'', JString (js ''cafe'')), (js ''v'', JString (js ''Foo''))]"
  let ?loc = "\<lparr>pathname = js ''/'', search = js ''?t=brands&k=cafe&v=Foo'', hash = js ''#a1''\<rparr>"
  have q: "qsString (outboundParams ?p) = Inr (js ''t=brands&k=cafe&v=Foo'')"
    by code_simp
  have s: "search ?loc = js ''?'' @ js ''t=brands&k=cafe&v=Foo''"
    by (simp add: js_def)
  have h: "hash ?loc = js ''#a1''"
    by simp
  have "outbound ?loc False False ?p (js ''#a1'') = Inr (None, False)"
    using outbound_idempotent[OF q, of ?loc "js ''#a1''" False False] s h by blast
  with q show ?thesis by simp
qed

text \<open>
  Claim C1. The condition of the outbound effect is
  \<^verbatim>\<open>!_didChangeLocation && newSearch !== location.search || newHash !== location.hash\<close>,
  where \<^verbatim>\<open>&&\<close> binds tighter than \<^verbatim>\<open>||\<close>: the flag guards the comparison of the
  search strings only. So once the index has loaded, the outbound effect that finds the
  flag set still makes a replace-style navigation whenever the stored hash differs from the
  location's hash, and it clears the flag.

  This happens when the page is opened at \<^verbatim>\<open>/?id=a1#zzz\<close>. In the commit in which the
  index has loaded both effects run, with the initial parameters \<^verbatim>\<open>{}\<close> and hash
  \<^verbatim>\<open>''\<close>: the inbound effect resolves the id, stores the parameters of the category and
  the hash \<^verbatim>\<open>#a1\<close> and sets the flag; the outbound effect navigates to
  \<^verbatim>\<open>/?t=brands\<close>. In the next commit the inbound effect reads that location back into
  the parameters and the outbound effect navigates to \<^verbatim>\<open>/?t=amenity&k=cafe&v=Foo#a1\<close>;
  in the one after, the inbound effect stores the category again and the outbound effect
  navigates to \<^verbatim>\<open>/?t=brands\<close> again.
\<close>

theorem outbound_navigates_with_flag_set:
  assumes "qsString (outboundParams params) = Inr q" and "hashState \<noteq> hash loc"
  shows "outbound loc False True params hashState =
    Inr (Some \<lparr>to = pathname loc @ (js ''?'' @ q) @ hashState, replace = True\<rparr>, False)"
  using assms by (simp add: outbound_def bind_result_Inr Let_def)

theorem outbound_navigates_with_flag_set_witness:
  "inbound \<lparr>pathname = js ''/'', search = js ''?id=a1'', hash = js ''#zzz''\<rparr> False
     cafeHeap cafeIndex [] [] = Inr (True, cafeParams, js ''#a1'') \<and>
   outbound \<lparr>pathname = js ''/'', search = js ''?id=a1'', hash = js ''#zzz''\<rparr> False True [] [] =
     Inr (Some \<lparr>to = js ''/?t=brands'', replace = True\<rparr>, False) \<and>
   inbound \<lparr>pathname = js ''/'', search = js ''?t=brands'', hash = []\<rparr> False
     cafeHeap cafeIndex cafeParams (js ''#a1'') =
     Inr (True, [(js ''t'', JString (js ''brands''))], []) \<and>
   outbound \<lparr>pathname = js ''/'', search = js ''?t=brands'', hash = []\<rparr> False True
     cafeParams (js ''#a1'') =
     Inr (Some \<lparr>to = js ''/?t=amenity&k=cafe&v=Foo#a1'', replace = True\<rparr>, False) \<and>
   inbound \<lparr>pathname = js ''/'', search = js ''?t=amenity&k=cafe&v=Foo'', hash = js ''#a1''\<rparr>
     False cafeHeap cafeIndex [(js ''t'', JString (js ''brands''))] [] =
     Inr (True, cafeParams, js ''#a1'') \<and>
   outbound \<lparr>pathname = js ''/'', search = js ''?t=amenity&k=cafe&v=Foo'', hash = js ''#a1''\<rparr>
     False True [(js ''t'', JString (js ''brands''))] [] =
     Inr (Some \<lparr>to = js ''/?t=brands'', replace = True\<rparr>, False)"
proof -
  let ?loc = "\<lparr>pathname = js ''/'', search = js ''?id=a1'', hash = js ''#zzz''\<rparr>"
  have q: "qsString (outboundParams []) = Inr (js ''t=brands'')"
    by code_simp
  have h: "[] \<noteq> hash ?loc"
    by (simp add: js_def)
  have "outbound ?loc False True [] [] =
      Inr (Some \<lparr>to = pathname ?loc @ (js ''?'' @ js ''t=brands'') @ [], replace = True\<rparr>, False)"
    by (rule outbound_navigates_with_flag_set[OF q h])
  moreover have "pathname ?loc @ (js ''?'' @ js ''t=brands'') @ [] = js ''/?t=brands''"
    by (simp add: js_def)
  ultimately have 1: "outbound ?loc False True [] [] =
      Inr (Some \<lparr>to = js ''/?t=brands'', replace = True\<rparr>, False)"
    by simp
  have 2: "inbound ?loc False cafeHeap cafeIndex [] [] = Inr (True, cafeParams, js ''#a1'')"
    by code_simp
  have 3: "inbound \<lparr>pathname = js ''/'', search = js ''?t=brands'', hash = []\<rparr> False
     cafeHeap cafeIndex cafeParams (js ''#a1'') =
     Inr (True, [(js ''t'', JString (js ''brands''))], [])"
    by code_simp
  have 4: "outbound \<lparr>pathname = js ''/'', search = js ''?t=brands'', hash = []\<rparr> False True
     cafeParams (js ''#a1'') =
     Inr (Some \<lparr>to = js ''/?t=amenity&k=cafe&v=Foo#a1'', replace = True\<rparr>, False)"
    by code_simp
  have 5: "inbound
     \<lparr>pathname = js ''/'', search = js ''?t=amenity&k=cafe&v=Foo'', hash = js ''#a1''\<rparr>
     False cafeHeap cafeIndex [(js ''t'', JString (js ''brands''))] [] =
     Inr (True, cafeParams, js ''#a1'')"
    by code_simp
  have 6: "outbound
     \<lparr>pathname = js ''/'', search = js ''?t=amenity&k=cafe&v=Foo'', hash = js ''#a1''\<rparr>
     False True [(js ''t'', JString (js ''brands''))] [] =
     Inr (Some \<lparr>to = js ''/?t=brands'', replace = True\<rparr>, False)"
    by code_simp
  from 2 1 3 4 5 6 show ?thesis
    by (intro conjI)
qed

text \<open>
  Claim C4. The outbound effect walks the keys \<^verbatim>\<open>t, k, v, id, tt, cc, inc\<close> in this order
  and keeps a key exactly when the parameters hold a truthy value for it, except \<^verbatim>\<open>t\<close>,
  which is always kept: with the parameters' value when that is truthy, with
  \<^verbatim>\<open>brands\<close> otherwise. The query string is the kept entries in that order, each as
  \<^verbatim>\<open>key=encodeURIComponent(value)\<close>, joined by \<^verbatim>\<open>&\<close>.
\<close>

theorem outbound_query_string:
  "map fst (outboundParams params) =
     filter (\<lambda>k. k = js ''t'' \<or> truthy (getProp params k))
       [js ''t'', js ''k'', js ''v'', js ''id'', js ''tt'', js ''cc'', js ''inc''] \<and>
   (\<forall>k\<in>set [js ''t'', js ''k'', js ''v'', js ''id'', js ''tt'', js ''cc'', js ''inc''].
      truthy (getProp params k) \<longrightarrow> getProp (outboundParams params) k = getProp params k) \<and>
   (\<not> truthy (getProp params (js ''t'')) \<longrightarrow>
      getProp (outboundParams params) (js ''t'') = JString (js ''brands'')) \<and>
   qsString (outboundParams params) =
     map_result (joinWith (js ''&''))
       (map_results (\<lambda>(k, v). map_result (\<lambda>e. k @ js ''='' @ e) (encodeURIComponent v))
          (outboundParams params))"
proof -
  have 1: "map fst (outboundParams params) =
     filter (\<lambda>k. k = js ''t'' \<or> truthy (getProp params k)) orderedKeys"
    by (simp add: outboundParams_entries map_fst_map_filter_entry)
  have g: "getProp (outboundParams params) k =
      (case outboundEntry params k of None \<Rightarrow> JUndefined | Some e \<Rightarrow> snd e)"
    if "k \<in> set orderedKeys" for k
    using that
    by (simp add: getProp_def outboundParams_entries map_of_map_filter_entry split: option.splits)
  have 2: "getProp (outboundParams params) k = getProp params k"
    if "k \<in> set orderedKeys" "truthy (getProp params k)" for k
    using that by (simp add: g outboundEntry_def)
  have t: "js ''t'' \<in> set orderedKeys" by (simp add: orderedKeys_def)
  have 3: "getProp (outboundParams params) (js ''t'') = JString (js ''brands'')"
    if "\<not> truthy (getProp params (js ''t''))"
    using that by (simp add: g[OF t] outboundEntry_def)
  have 4: "qsString (outboundParams params) =
     map_result (joinWith (js ''&''))
       (map_results (\<lambda>(k, v). map_result (\<lambda>e. k @ js ''='' @ e) (encodeURIComponent v))
          (outboundParams params))"
  proof (rule qsString_plain[OF outboundParams_distinct])
    show "\<forall>k\<in>fst ` set (outboundParams params). arrayIndex k = None \<and> list_all uriUnescaped k"
    proof
      fix k
      assume "k \<in> fst ` set (outboundParams params)"
      then have "k \<in> set orderedKeys"
        by (rule subsetD[OF outboundParams_keys])
      then show "arrayIndex k = None \<and> list_all uriUnescaped k"
        by (rule bspec[OF orderedKeys_plain])
    qed
  qed
  show ?thesis
  proof (intro conjI ballI impI)
    show "map fst (outboundParams params) =
     filter (\<lambda>k. k = js ''t'' \<or> truthy (getProp params k))
       [js ''t'', js ''k'', js ''v'', js ''id'', js ''tt'', js ''cc'', js ''inc'']"
      using 1 by (simp only: orderedKeys_def)
  next
    fix k
    assume "k \<in> set [js ''t'', js ''k'', js ''v'', js ''id'', js ''tt'', js ''cc'', js ''inc'']"
      and "truthy (getProp params k)"
    then show "getProp (outboundParams params) k = getProp params k"
      using 2[of k] by (simp only: orderedKeys_def)
  next
    assume "\<not> truthy (getProp params (js ''t''))"
    then show "getProp (outboundParams params) (js ''t'') = JString (js ''brands'')"
      by (rule 3)
  next
    show "qsString (outboundParams params) =
     map_result (joinWith (js ''&''))
       (map_results (\<lambda>(k, v). map_result (\<lambda>e. k @ js ''='' @ e) (encodeURIComponent v))
          (outboundParams params))"
      by (rule 4)
  qed
qed

theorem outbound_query_string_witness:
  "getProp (outboundParams [(js ''k'', JString (js ''cafe'')), (js ''v'', JString (js ''Foo''))]) (js ''k'') =
     JString (js ''cafe'') \<and>
   getProp (outboundParams [(js ''k'', JString (js ''cafe'')), (js ''v'', JString (js ''Foo''))]) (js ''t'') =
     JString (js ''brands'') \<and>
   qsString (outboundParams [(js ''k'', JString (js ''cafe'')), (js ''v'', JString (js ''Foo''))]) =
     Inr (js ''t=brands&k=cafe&v=Foo'')"
proof -
  let ?p = "[(js ''k'', JString (js ''cafe'')), (js ''v'', JString (js ''Foo''))]"
  have k: "js ''k'' \<in> set [js ''t'', js ''k'', js ''v'', js ''id'', js ''tt'', js ''cc'', js ''inc'']"
    by simp
  have tk: "truthy (getProp ?p (js ''k''))" by code_simp
  have nt: "\<not> truthy (getProp ?p (js ''t''))" by code_simp
  have "getProp (outboundParams ?p) (js ''k'') = getProp ?p (js ''k'')"
    using outbound_query_string[of ?p] k tk by blast
  moreover have "getProp ?p (js ''k'') = JString (js ''cafe'')" by code_simp
  moreover have "getProp (outboundParams ?p) (js ''t'') = JString (js ''brands'')"
    using outbound_query_string[of ?p] nt by blast
  moreover have "qsString (outboundParams ?p) = Inr (js ''t=brands&k=cafe&v=Foo'')"
    by code_simp
  ultimately show ?thesis by simp
qed

section \<open>The loaders\<close>

text \<open>
  Claim C8. For each of the three loaders: when the fetch or the parse of the body fails,
  the state of the hook is its initial state (loading, with the initial empty data), and
  it stays so, since \<^verbatim>\<open>fetchUrl\<close> runs only once; and a loader that is no longer loading
  has had a body that parsed.
\<close>

theorem loaders_stay_loading:
  "((r1 = FetchRejected \<or> r1 = JsonRejected) \<longrightarrow>
      useFetch r1 = \<lparr>data = InitialValue, loading = True\<rparr>) \<and>
   (\<not> loading (useFetch r1) \<longrightarrow> (\<exists>json. r1 = Json json)) \<and>
   ((r2 = FetchRejected \<or> r2 = JsonRejected) \<longrightarrow>
      useNsi r2 = \<lparr>data = InitialValue, loading = True\<rparr>) \<and>
   (\<not> loading (useNsi r2) \<longrightarrow> (\<exists>json. r2 = Json json)) \<and>
   ((r3 = FetchRejected \<or> r3 = JsonRejected) \<longrightarrow>
      useTaginfo r3 = \<lparr>data = [], loading = True\<rparr>) \<and>
   (\<not> loading (useTaginfo r3) \<longrightarrow> (\<exists>json. r3 = Json json))"
  by (cases r1; cases r2; cases r3)
     (simp_all add: useFetch_def useFetch_fetchUrl_def useNsi_def useNsi_fetchUrl_def
        useTaginfo_def useTaginfo_fetchUrl_def)

theorem loaders_stay_loading_witness:
  "useFetch (FetchRejected :: unit response) = \<lparr>data = InitialValue, loading = True\<rparr> \<and>
   useNsi (JsonRejected :: (unit heap \<times> unit nsi_json body) response) =
     \<lparr>data = InitialValue, loading = True\<rparr> \<and>
   useTaginfo FetchRejected = \<lparr>data = [], loading = True\<rparr> \<and>
   \<not> loading (useTaginfo (Json (Present []))) \<and>
   (\<exists>json. (Json (Present []) :: tag_element list body response) = Json json)"
  using loaders_stay_loading[of "FetchRejected :: unit response"
      "JsonRejected :: (unit heap \<times> unit nsi_json body) response" FetchRejected]
    loaders_stay_loading[of "FetchRejected :: unit response"
      "JsonRejected :: (unit heap \<times> unit nsi_json body) response" "Json (Present [])"]
  by (simp add: useTaginfo_def useTaginfo_fetchUrl_def)

text \<open>
  Claim C6, as amended. For every fetched list of tags none of which is \<^verbatim>\<open>null\<close>, the
  loader finishes, and its icon table has an entry under a composite key exactly when some
  tag with a non-empty icon URL and a non-empty key has that composite key and the key is
  not \<^verbatim>\<open>__proto__\<close>; no key occurs twice; of several such tags with one composite key,
  the last in the list gives the URL; and the composite key is the tag's key, followed by
  \<^verbatim>\<open>/\<close> and the value when the tag has a non-empty value. A list that holds \<^verbatim>\<open>null\<close>,
  or a body without a list of tags, makes the loader raise an exception: it stays loading,
  with the empty table.
\<close>

theorem icon_table:
  "(\<exists>icons. useTaginfo (Json (Present (map Tag tags))) = \<lparr>data = icons, loading = False\<rparr> \<and>
      (\<forall>kv. kv \<in> fst ` set icons \<longleftrightarrow>
         (\<exists>t\<in>set tags. hasIconAndKey t \<and> compositeKey t = kv \<and> kv \<noteq> js ''__proto__'')) \<and>
      distinct (map fst icons) \<and>
      (\<forall>pre t post.
         tags = pre @ t # post \<and> hasIconAndKey t \<and> compositeKey t \<noteq> js ''__proto__'' \<and>
         (\<forall>t'\<in>set post. hasIconAndKey t' \<longrightarrow> compositeKey t' \<noteq> compositeKey t) \<longrightarrow>
         getProp icons (compositeKey t) = tag_icon_url t)) \<and>
   (tag_key t0 = JString k \<and> (tag_value t0 = JUndefined \<or> tag_value t0 = JString []) \<longrightarrow>
      compositeKey t0 = k) \<and>
   (tag_key t0 = JString k \<and> tag_value t0 = JString v \<and> v \<noteq> [] \<longrightarrow>
      compositeKey t0 = k @ js ''/'' @ v) \<and>
   (NullTag \<in> set elements \<longrightarrow>
      useTaginfo (Json (Present elements)) = \<lparr>data = [], loading = True\<rparr>) \<and>
   useTaginfo (Json Missing) = \<lparr>data = [], loading = True\<rparr>"
proof -
  obtain icons where r: "populateIcons (map Tag tags) [] = Inr icons"
    and m: "map_of icons = map_of (rev (iconEntries tags))"
    and d: "distinct (map fst icons)"
    using populateIcons_map[of "[]" tags] by auto
  have u: "useTaginfo (Json (Present (map Tag tags))) = \<lparr>data = icons, loading = False\<rparr>"
    by (simp add: useTaginfo_def useTaginfo_fetchUrl_def r)
  have "fst ` set icons = dom (map_of icons)"
    by (simp add: dom_map_of_conv_image_fst)
  also have "\<dots> = fst ` set (iconEntries tags)"
    by (simp add: m dom_map_of_conv_image_fst)
  finally have 1: "kv \<in> fst ` set icons \<longleftrightarrow>
      (\<exists>t\<in>set tags. hasIconAndKey t \<and> compositeKey t = kv \<and> kv \<noteq> js ''__proto__'')" for kv
    by (auto simp: iconEntries_keys)
  have 3: "getProp icons (compositeKey t) = tag_icon_url t"
    if "tags = pre @ t # post" "hasIconAndKey t" "compositeKey t \<noteq> js ''__proto__''"
      "\<forall>t'\<in>set post. hasIconAndKey t' \<longrightarrow> compositeKey t' \<noteq> compositeKey t"
    for pre t post
    using iconEntries_last[OF that(2,3,4), of pre] that(1) by (simp add: getProp_def m)
  have 4: "useTaginfo (Json (Present elements)) = \<lparr>data = [], loading = True\<rparr>"
    if "NullTag \<in> set elements"
    using populateIcons_NullTag[OF that, of "[]"]
    by (simp add: useTaginfo_def useTaginfo_fetchUrl_def)
  have 5: "useTaginfo (Json Missing) = \<lparr>data = [], loading = True\<rparr>"
    by (simp add: useTaginfo_def useTaginfo_fetchUrl_def)
  have "\<exists>icons. useTaginfo (Json (Present (map Tag tags))) = \<lparr>data = icons, loading = False\<rparr> \<and>
      (\<forall>kv. kv \<in> fst ` set icons \<longleftrightarrow>
         (\<exists>t\<in>set tags. hasIconAndKey t \<and> compositeKey t = kv \<and> kv \<noteq> js ''__proto__'')) \<and>
      distinct (map fst icons) \<and>
      (\<forall>pre t post.
         tags = pre @ t # post \<and> hasIconAndKey t \<and> compositeKey t \<noteq> js ''__proto__'' \<and>
         (\<forall>t'\<in>set post. hasIconAndKey t' \<longrightarrow> compositeKey t' \<noteq> compositeKey t) \<longrightarrow>
         getProp icons (compositeKey t) = tag_icon_url t)"
    using u 1 d 3 by blast
  then show ?thesis
    using 4 5 compositeKey_cases[of t0 k] compositeKey_cases(2)[of t0 k v] by blast
qed

text \<open>
  The claim as stated fails for the list \<^verbatim>\<open>[{key: "__proto__", icon_url: "u"}]\<close>: the
  tag has a non-empty icon URL and a non-empty key, but the assignment
  \<^verbatim>\<open>icons["__proto__"] = "u"\<close> creates no entry, and the table stays empty. It also fails
  for a list that holds \<^verbatim>\<open>null\<close> after a tag with an icon and a key: the loader raises
  an exception and no table is stored.
\<close>

theorem icon_table_counterexample:
  "hasIconAndKey \<lparr>tag_key = JString (js ''__proto__''), tag_value = JUndefined,
      tag_icon_url = JString (js ''u'')\<rparr> \<and>
   useTaginfo (Json (Present
     [Tag \<lparr>tag_key = JString (js ''__proto__''), tag_value = JUndefined,
           tag_icon_url = JString (js ''u'')\<rparr>])) = \<lparr>data = [], loading = False\<rparr> \<and>
   hasIconAndKey \<lparr>tag_key = JString (js ''shop''), tag_value = JUndefined,
      tag_icon_url = JString (js ''u1'')\<rparr> \<and>
   useTaginfo (Json (Present
     [Tag \<lparr>tag_key = JString (js ''shop''), tag_value = JUndefined,
           tag_icon_url = JString (js ''u1'')\<rparr>, NullTag])) = \<lparr>data = [], loading = True\<rparr>"
  by code_simp

theorem icon_table_witness:
  "useTaginfo (Json (Present (map Tag
     [\<lparr>tag_key = JString (js ''shop''), tag_value = JUndefined, tag_icon_url = JString (js ''u0'')\<rparr>,
      \<lparr>tag_key = JString (js ''shop''), tag_value = JUndefined, tag_icon_url = JString (js ''u1'')\<rparr>,
      \<lparr>tag_key = JString (js ''shop''), tag_value = JString (js ''bakery''),
         tag_icon_url = JString (js ''u2'')\<rparr>,
      \<lparr>tag_key = JString (js ''x''), tag_value = JUndefined, tag_icon_url = JUndefined\<rparr>]))) =
     \<lparr>data = [(js ''shop'', JString (js ''u1'')), (js ''shop/bakery'', JString (js ''u2''))],
        loading = False\<rparr> \<and>
   getProp [(js ''shop'', JString (js ''u1'')), (js ''shop/bakery'', JString (js ''u2''))]
     (js ''shop'') = JString (js ''u1'')"
proof -
  let ?t0 = "\<lparr>tag_key = JString (js ''shop''), tag_value = JUndefined, tag_icon_url = JString (js ''u0'')\<rparr>"
  let ?t1 = "\<lparr>tag_key = JString (js ''shop''), tag_value = JUndefined, tag_icon_url = JString (js ''u1'')\<rparr>"
  let ?t2 = "\<lparr>tag_key = JString (js ''shop''), tag_value = JString (js ''bakery''),
         tag_icon_url = JString (js ''u2'')\<rparr>"
  let ?t3 = "\<lparr>tag_key = JString (js ''x''), tag_value = JUndefined, tag_icon_url = JUndefined\<rparr>"
  let ?icons = "[(js ''shop'', JString (js ''u1'')), (js ''shop/bakery'', JString (js ''u2''))]"
  have e: "useTaginfo (Json (Present (map Tag [?t0, ?t1, ?t2, ?t3]))) =
      \<lparr>data = ?icons, loading = False\<rparr>"
    by code_simp
  have a: "[?t0, ?t1, ?t2, ?t3] = [?t0] @ ?t1 # [?t2, ?t3]" by simp
  have b: "hasIconAndKey ?t1" by code_simp
  have c: "\<forall>t'\<in>set [?t2, ?t3]. hasIconAndKey t' \<longrightarrow> compositeKey t' \<noteq> compositeKey ?t1"
    by code_simp
  have k: "compositeKey ?t1 = js ''shop''" by code_simp
  have p: "compositeKey ?t1 \<noteq> js ''__proto__''" by code_simp
  obtain icons where i: "useTaginfo (Json (Present (map Tag [?t0, ?t1, ?t2, ?t3]))) =
        \<lparr>data = icons, loading = False\<rparr>"
    and l: "\<forall>pre t post.
         [?t0, ?t1, ?t2, ?t3] = pre @ t # post \<and> hasIconAndKey t \<and>
         compositeKey t \<noteq> js ''__proto__'' \<and>
         (\<forall>t'\<in>set post. hasIconAndKey t' \<longrightarrow> compositeKey t' \<noteq> compositeKey t) \<longrightarrow>
         getProp icons (compositeKey t) = tag_icon_url t"
    using icon_table[of "[?t0, ?t1, ?t2, ?t3]"] by blast
  have "icons = ?icons" using i e by simp
  moreover have "getProp icons (compositeKey ?t1) = tag_icon_url ?t1"
    using l a b c p by blast
  ultimately have "getProp ?icons (js ''shop'') = JString (js ''u1'')"
    by (simp add: k)
  with e show ?thesis by blast
qed

section \<open>The name index\<close>

text \<open>
  Claim C5, as amended. For every fetched document in which no category is \<^verbatim>\<open>null\<close>
  and every element of an array of items is an object, the loader builds the index and
  stores it: a category whose \<^verbatim>\<open>items\<close> is not an array has no entry in \<open>byPath\<close>, and
  no item that \<open>byId\<close> holds carries its key; a category whose \<^verbatim>\<open>items\<close> is an array
  has that array, in its order, under its key in \<open>byPath\<close>, each of its items is the
  source item with \<^verbatim>\<open>tkv\<close> set to that key, and \<open>byId\<close> holds an item under the
  item's id; and every item that \<open>byId\<close> holds lies in the array of exactly one entry of
  \<open>byPath\<close>. For any other document, and for a body without \<^verbatim>\<open>nsi\<close>, the loader
  raises an exception: no index is stored and the loader stays loading.
\<close>

theorem name_index_categories:
  assumes "parsedTree (nsi json)"
  shows "(allObjects (nsi json) \<longrightarrow>
            (\<exists>h' idx.
               buildIndex (h, Present json) = Inr (h', idx) \<and>
               useNsi (Json (h, Present json)) = \<lparr>data = Loaded (h', idx), loading = False\<rparr> \<and>
               (\<forall>tkv. (tkv, NotArray) \<in> set (nsi json) \<longrightarrow>
                  byPath idx tkv = None \<and>
                  (\<forall>i a. byId idx i = Some a \<longrightarrow> item_tkv (h' a) \<noteq> JString tkv)) \<and>
               (\<forall>tkv items. (tkv, ItemArray items) \<in> set (nsi json) \<longrightarrow>
                  byPath idx tkv = Some items \<and>
                  (\<forall>e\<in>set items. \<exists>a. e = Object a \<and>
                     h' a = (h a)\<lparr>item_tkv := JString tkv\<rparr> \<and>
                     (\<exists>a'. byId idx (toString (item_id (h' a))) = Some a' \<and>
                           toString (item_id (h' a')) = toString (item_id (h' a))))) \<and>
               (\<forall>i a. byId idx i = Some a \<longrightarrow>
                  (\<exists>!t. \<exists>es. byPath idx t = Some es \<and> Object a \<in> set es)))) \<and>
         (\<not> allObjects (nsi json) \<longrightarrow>
            buildIndex (h, Present json) = Inl TypeError \<and>
            useNsi (Json (h, Present json)) = \<lparr>data = InitialValue, loading = True\<rparr>) \<and>
         useNsi (Json (h, Missing)) = \<lparr>data = InitialValue, loading = True\<rparr>"
proof (intro conjI impI)
  show "useNsi (Json (h, Missing)) = \<lparr>data = InitialValue, loading = True\<rparr>"
    by (simp add: useNsi_def useNsi_fetchUrl_def buildIndex_def)
next
  assume "\<not> allObjects (nsi json)"
  then show "buildIndex (h, Present json) = Inl TypeError"
    by (simp add: buildIndex_Present)
  then show "useNsi (Json (h, Present json)) = \<lparr>data = InitialValue, loading = True\<rparr>"
    by (simp add: useNsi_def useNsi_fetchUrl_def)
next
  assume ao: "allObjects (nsi json)"
  then obtain h' idx where b: "buildIndex (h, Present json) = Inr (h', idx)"
    using built_total by blast
  have u: "useNsi (Json (h, Present json)) = \<lparr>data = Loaded (h', idx), loading = False\<rparr>"
    by (simp add: useNsi_def useNsi_fetchUrl_def b)
  have 1: "byPath idx tkv = None \<and> (\<forall>i a. byId idx i = Some a \<longrightarrow> item_tkv (h' a) \<noteq> JString tkv)"
    if na: "(tkv, NotArray) \<in> set (nsi json)" for tkv
  proof
    show "byPath idx tkv = None"
    proof (cases "byPath idx tkv")
      case None
      then show ?thesis .
    next
      case (Some es)
      then have "(tkv, ItemArray es) \<in> set (nsi json)"
        using byPath_built[OF assms b] by simp
      then show ?thesis using category_unique[OF assms na, of "ItemArray es"] by simp
    qed
    show "\<forall>i a. byId idx i = Some a \<longrightarrow> item_tkv (h' a) \<noteq> JString tkv"
    proof (intro allI impI)
      fix i a
      assume "byId idx i = Some a"
      then obtain t where t: "(t, a) \<in> set (allItems (nsi json))"
        using byId_built[OF b] by blast
      then obtain es where "(t, ItemArray es) \<in> set (nsi json)"
        by (auto simp: set_allItems)
      then have "t \<noteq> tkv" using category_unique[OF assms na, of "ItemArray es"] by auto
      moreover have "item_tkv (h' a) = JString t" using heap_built[OF assms b t] by simp
      ultimately show "item_tkv (h' a) \<noteq> JString tkv" by simp
    qed
  qed
  have 2: "byPath idx tkv = Some items \<and>
      (\<forall>e\<in>set items. \<exists>a. e = Object a \<and>
         h' a = (h a)\<lparr>item_tkv := JString tkv\<rparr> \<and>
         (\<exists>a'. byId idx (toString (item_id (h' a))) = Some a' \<and>
               toString (item_id (h' a')) = toString (item_id (h' a))))"
    if ia: "(tkv, ItemArray items) \<in> set (nsi json)" for tkv items
  proof
    show "byPath idx tkv = Some items" using byPath_built[OF assms b] ia by simp
    show "\<forall>e\<in>set items. \<exists>a. e = Object a \<and>
         h' a = (h a)\<lparr>item_tkv := JString tkv\<rparr> \<and>
         (\<exists>a'. byId idx (toString (item_id (h' a))) = Some a' \<and>
               toString (item_id (h' a')) = toString (item_id (h' a)))"
    proof
      fix e
      assume e: "e \<in> set items"
      have "NonObject \<notin> set items" by (rule allObjects_array[OF ao ia])
      then obtain a where a: "e = Object a" using e by (cases e) auto
      then have m: "(tkv, a) \<in> set (allItems (nsi json))"
        using ia e by (auto simp: set_allItems)
      have 1: "h' a = (h a)\<lparr>item_tkv := JString tkv\<rparr>" by (rule heap_built[OF assms b m])
      obtain a' where a': "byId idx (toString (item_id (h a))) = Some a'"
        "toString (item_id (h a')) = toString (item_id (h a))"
        using byId_built_defined[OF b m] by blast
      obtain t' where "(t', a') \<in> set (allItems (nsi json))"
        using byId_built[OF b a'(1)] by blast
      then have "h' a' = (h a')\<lparr>item_tkv := JString t'\<rparr>" by (rule heap_built[OF assms b])
      then have "byId idx (toString (item_id (h' a))) = Some a' \<and>
          toString (item_id (h' a')) = toString (item_id (h' a))"
        using 1 a' by simp
      then show "\<exists>a. e = Object a \<and>
         h' a = (h a)\<lparr>item_tkv := JString tkv\<rparr> \<and>
         (\<exists>a'. byId idx (toString (item_id (h' a))) = Some a' \<and>
               toString (item_id (h' a')) = toString (item_id (h' a)))"
        using a 1 by blast
    qed
  qed
  have 3: "\<exists>!t. \<exists>es. byPath idx t = Some es \<and> Object a \<in> set es"
    if bi: "byId idx i = Some a" for i a
  proof -
    obtain t where t: "(t, a) \<in> set (allItems (nsi json))"
      using byId_built[OF b bi] by blast
    then obtain es where es: "(t, ItemArray es) \<in> set (nsi json)" "Object a \<in> set es"
      by (auto simp: set_allItems)
    show ?thesis
    proof (rule ex1I[of _ t])
      show "\<exists>es. byPath idx t = Some es \<and> Object a \<in> set es"
        using es byPath_built[OF assms b] by blast
    next
      fix t2
      assume "\<exists>es. byPath idx t2 = Some es \<and> Object a \<in> set es"
      then obtain es2 where "(t2, ItemArray es2) \<in> set (nsi json)" "Object a \<in> set es2"
        using byPath_built[OF assms b] by blast
      then have "(t2, a) \<in> set (allItems (nsi json))" by (auto simp: set_allItems)
      then show "t2 = t" using owner_built_unique[OF assms _ t] by blast
    qed
  qed
  from b u 1 2 3 show "\<exists>h' idx.
       buildIndex (h, Present json) = Inr (h', idx) \<and>
       useNsi (Json (h, Present json)) = \<lparr>data = Loaded (h', idx), loading = False\<rparr> \<and>
       (\<forall>tkv. (tkv, NotArray) \<in> set (nsi json) \<longrightarrow>
          byPath idx tkv = None \<and>
          (\<forall>i a. byId idx i = Some a \<longrightarrow> item_tkv (h' a) \<noteq> JString tkv)) \<and>
       (\<forall>tkv items. (tkv, ItemArray items) \<in> set (nsi json) \<longrightarrow>
          byPath idx tkv = Some items \<and>
          (\<forall>e\<in>set items. \<exists>a. e = Object a \<and>
             h' a = (h a)\<lparr>item_tkv := JString tkv\<rparr> \<and>
             (\<exists>a'. byId idx (toString (item_id (h' a))) = Some a' \<and>
                   toString (item_id (h' a')) = toString (item_id (h' a))))) \<and>
       (\<forall>i a. byId idx i = Some a \<longrightarrow>
          (\<exists>!t. \<exists>es. byPath idx t = Some es \<and> Object a \<in> set es))"
    by blast
qed

text \<open>
  The claim as stated fails for the document
  \<^verbatim>\<open>{"nsi": {"amenity/cafe/Foo": {"items": [{"id": "a1"}]}, "bad/cat": null}}\<close>: reading
  \<^verbatim>\<open>category.items\<close> of the second category raises a \<^verbatim>\<open>TypeError\<close>, so the first
  category is in no index and the loader stays loading. The same happens for an array
  of items that holds a value which is no object.
\<close>

theorem name_index_categories_counterexample:
  "parsedTree [(js ''amenity/cafe/Foo'', ItemArray [Object 0]), (js ''bad/cat'', NullCategory)] \<and>
   buildIndex (cafeHeap,
     Present \<lparr>nsi = [(js ''amenity/cafe/Foo'', ItemArray [Object 0]), (js ''bad/cat'', NullCategory)],
              meta_json = ()\<rparr>) = Inl TypeError \<and>
   loading (useNsi (Json (cafeHeap,
     Present \<lparr>nsi = [(js ''amenity/cafe/Foo'', ItemArray [Object 0]), (js ''bad/cat'', NullCategory)],
              meta_json = ()\<rparr>))) \<and>
   buildIndex (cafeHeap,
     Present \<lparr>nsi = [(js ''amenity/cafe/Foo'', ItemArray [Object 0, NonObject])],
              meta_json = ()\<rparr>) = Inl TypeError \<and>
   loading (useNsi (Json (cafeHeap,
     Present \<lparr>nsi = [(js ''amenity/cafe/Foo'', ItemArray [Object 0, NonObject])],
              meta_json = ()\<rparr>)))"
proof -
  let ?null = "[(js ''amenity/cafe/Foo'', ItemArray [Object 0]), (js ''bad/cat'', NullCategory)]"
  let ?prim = "[(js ''amenity/cafe/Foo'', ItemArray [Object 0, NonObject])]"
  have 1: "parsedTree ?null" by code_simp
  have "\<not> allObjects ?null" by code_simp
  then have 2: "buildIndex (cafeHeap, Present \<lparr>nsi = ?null, meta_json = ()\<rparr>) = Inl TypeError"
    by (simp add: buildIndex_Present)
  then have 3: "loading (useNsi (Json (cafeHeap, Present \<lparr>nsi = ?null, meta_json = ()\<rparr>)))"
    by (simp add: useNsi_def useNsi_fetchUrl_def)
  have "\<not> allObjects ?prim" by code_simp
  then have 4: "buildIndex (cafeHeap, Present \<lparr>nsi = ?prim, meta_json = ()\<rparr>) = Inl TypeError"
    by (simp add: buildIndex_Present)
  then have 5: "loading (useNsi (Json (cafeHeap, Present \<lparr>nsi = ?prim, meta_json = ()\<rparr>)))"
    by (simp add: useNsi_def useNsi_fetchUrl_def)
  from 1 2 3 4 5 show ?thesis by simp
qed

theorem name_index_categories_witness:
  "parsedTree (nsi exampleJson) \<and> allObjects (nsi exampleJson) \<and>
   (\<exists>h' idx. buildIndex (exampleHeap, Present exampleJson) = Inr (h', idx) \<and>
      byPath idx (js ''bad/cat'') = None \<and>
      byPath idx (js ''amenity/cafe/Foo'') = Some [Object 0, Object 1] \<and>
      h' 1 = \<lparr>item_id = JString (js ''a2''), item_tkv = JString (js ''amenity/cafe/Foo''),
               item_rest = ()\<rparr> \<and>
      byId idx (js ''a1'') = Some 2 \<and>
      (\<exists>!t. \<exists>es. byPath idx t = Some es \<and> Object 2 \<in> set es))"
proof -
  have pt: "parsedTree (nsi exampleJson)" by code_simp
  have ao: "allObjects (nsi exampleJson)" by code_simp
  have bad: "(js ''bad/cat'', NotArray) \<in> set (nsi exampleJson)"
    by (simp add: exampleJson_def)
  have cafe: "(js ''amenity/cafe/Foo'', ItemArray [Object 0, Object 1]) \<in> set (nsi exampleJson)"
    by (simp add: exampleJson_def)
  obtain h' idx where b: "buildIndex (exampleHeap, Present exampleJson) = Inr (h', idx)"
    and n: "\<forall>tkv. (tkv, NotArray) \<in> set (nsi exampleJson) \<longrightarrow>
          byPath idx tkv = None \<and>
          (\<forall>i a. byId idx i = Some a \<longrightarrow> item_tkv (h' a) \<noteq> JString tkv)"
    and i: "\<forall>tkv items. (tkv, ItemArray items) \<in> set (nsi exampleJson) \<longrightarrow>
          byPath idx tkv = Some items \<and>
          (\<forall>e\<in>set items. \<exists>a. e = Object a \<and>
             h' a = (exampleHeap a)\<lparr>item_tkv := JString tkv\<rparr> \<and>
             (\<exists>a'. byId idx (toString (item_id (h' a))) = Some a' \<and>
                   toString (item_id (h' a')) = toString (item_id (h' a))))"
    and o: "\<forall>i a. byId idx i = Some a \<longrightarrow>
          (\<exists>!t. \<exists>es. byPath idx t = Some es \<and> Object a \<in> set es)"
    using name_index_categories[OF pt, of exampleHeap] ao by blast
  have 1: "byPath idx (js ''bad/cat'') = None" using n bad by blast
  have 2: "byPath idx (js ''amenity/cafe/Foo'') = Some [Object 0, Object 1]"
    using i cafe by blast
  have "\<exists>a. Object 1 = Object a \<and>
      h' a = (exampleHeap a)\<lparr>item_tkv := JString (js ''amenity/cafe/Foo'')\<rparr>"
    using i cafe by fastforce
  then have "h' 1 = (exampleHeap 1)\<lparr>item_tkv := JString (js ''amenity/cafe/Foo'')\<rparr>"
    by simp
  then have 3: "h' 1 = \<lparr>item_id = JString (js ''a2''), item_tkv = JString (js ''amenity/cafe/Foo''),
               item_rest = ()\<rparr>"
    by (simp add: exampleHeap_def)
  have "byId (snd (projr (buildIndex (exampleHeap, Present exampleJson)))) (js ''a1'') = Some 2"
    by code_simp
  then have 4: "byId idx (js ''a1'') = Some 2" by (simp add: b)
  then have 5: "\<exists>!t. \<exists>es. byPath idx t = Some es \<and> Object 2 \<in> set es"
    using o by blast
  from pt ao b 1 2 3 4 5 show ?thesis by blast
qed

text \<open>
  Claim C10. The two tables of the index hold the same item objects: the item that
  \<open>byId\<close> holds under an id carries that id and a key \<^verbatim>\<open>tkv\<close>, and is a member of the
  array that \<open>byPath\<close> holds under that key; every member of an array of \<open>byPath\<close>
  is an item object that carries the key of the array; and of two items with one id,
  \<open>byId\<close> holds the later one in the order of the loops (the last one with that id).
\<close>

theorem name_index_aliasing:
  assumes "parsedTree (nsi json)" and "buildIndex (h, Present json) = Inr (h', idx)"
  shows "(byId idx i = Some a \<longrightarrow>
            (\<exists>t es. item_tkv (h' a) = JString t \<and> byPath idx t = Some es \<and> Object a \<in> set es) \<and>
            toString (item_id (h' a)) = i) \<and>
         (byPath idx tkv = Some items \<longrightarrow>
            (\<forall>e\<in>set items. \<exists>b. e = Object b \<and> item_tkv (h' b) = JString tkv)) \<and>
         (allItems (nsi json) = pre @ (t1, a1) # mid @ (t2, a2) # post \<and>
            toString (item_id (h a1)) = toString (item_id (h a2)) \<and>
            (\<forall>x\<in>set post. toString (item_id (h (snd x))) \<noteq> toString (item_id (h a2))) \<longrightarrow>
            byId idx (toString (item_id (h a2))) = Some a2)"
proof (intro conjI impI)
  assume b: "byId idx i = Some a"
  then obtain t where t: "(t, a) \<in> set (allItems (nsi json))"
    using byId_built[OF assms(2)] by blast
  then obtain es where es: "(t, ItemArray es) \<in> set (nsi json)" "Object a \<in> set es"
    by (auto simp: set_allItems)
  have h: "h' a = (h a)\<lparr>item_tkv := JString t\<rparr>" by (rule heap_built[OF assms t])
  then have "item_tkv (h' a) = JString t" by simp
  moreover have "byPath idx t = Some es" using es(1) byPath_built[OF assms] by simp
  ultimately show "\<exists>t es. item_tkv (h' a) = JString t \<and> byPath idx t = Some es \<and> Object a \<in> set es"
    using es(2) by blast
  show "toString (item_id (h' a)) = i"
    using byId_built[OF assms(2) b] h by simp
next
  assume p: "byPath idx tkv = Some items"
  then have ia: "(tkv, ItemArray items) \<in> set (nsi json)"
    using byPath_built[OF assms] by simp
  show "\<forall>e\<in>set items. \<exists>b. e = Object b \<and> item_tkv (h' b) = JString tkv"
  proof
    fix e
    assume e: "e \<in> set items"
    have "NonObject \<notin> set items"
      by (rule allObjects_array[OF built(1)[OF assms(2)] ia])
    then obtain b where b: "e = Object b" using e by (cases e) auto
    then have "(tkv, b) \<in> set (allItems (nsi json))"
      using ia e by (auto simp: set_allItems)
    then have "h' b = (h b)\<lparr>item_tkv := JString tkv\<rparr>" by (rule heap_built[OF assms])
    then show "\<exists>b. e = Object b \<and> item_tkv (h' b) = JString tkv"
      using b by simp
  qed
next
  assume a: "allItems (nsi json) = pre @ (t1, a1) # mid @ (t2, a2) # post \<and>
            toString (item_id (h a1)) = toString (item_id (h a2)) \<and>
            (\<forall>x\<in>set post. toString (item_id (h (snd x))) \<noteq> toString (item_id (h a2)))"
  then have e: "allItems (nsi json) = (pre @ (t1, a1) # mid) @ (t2, a2) # post"
    and n: "\<forall>x\<in>set post. toString (item_id (h (snd x))) \<noteq> toString (item_id (h a2))"
    by simp_all
  show "byId idx (toString (item_id (h a2))) = Some a2"
    by (rule byId_built_last[OF assms(2) e n])
qed

theorem name_index_aliasing_witness:
  "parsedTree (nsi exampleJson) \<and>
   (\<exists>h' idx. buildIndex (exampleHeap, Present exampleJson) = Inr (h', idx) \<and>
      byId idx (js ''a1'') = Some 2 \<and>
      item_tkv (h' 2) = JString (js ''shop/x/Y'') \<and>
      byPath idx (js ''shop/x/Y'') = Some [Object 2] \<and>
      item_tkv (h' 0) = JString (js ''amenity/cafe/Foo''))"
proof -
  have pt: "parsedTree (nsi exampleJson)" by code_simp
  have "allObjects (nsi exampleJson)" by code_simp
  then obtain h' idx where eq: "buildIndex (exampleHeap, Present exampleJson) = Inr (h', idx)"
    using built_total by blast
  have al: "allItems (nsi exampleJson) =
      [] @ (js ''amenity/cafe/Foo'', 0) # [(js ''amenity/cafe/Foo'', 1)] @ (js ''shop/x/Y'', 2) # []"
    by code_simp
  have same: "toString (item_id (exampleHeap 0)) = toString (item_id (exampleHeap 2))"
    by (simp add: exampleHeap_def)
  have k: "toString (item_id (exampleHeap 2)) = js ''a1''"
    by (simp add: exampleHeap_def toString_def)
  have 1: "byId idx (js ''a1'') = Some 2"
    using name_index_aliasing[OF pt eq, of _ _ _ _ "[]" "js ''amenity/cafe/Foo''" 0
        "[(js ''amenity/cafe/Foo'', 1)]" "js ''shop/x/Y''" 2 "[]"] al same
    by (simp add: k)
  have "byPath (snd (projr (buildIndex (exampleHeap, Present exampleJson)))) (js ''shop/x/Y'') =
      Some [Object 2]"
    by code_simp
  then have p: "byPath idx (js ''shop/x/Y'') = Some [Object 2]" by (simp add: eq)
  have 2: "item_tkv (h' 2) = JString (js ''shop/x/Y'')"
    using name_index_aliasing[OF pt eq, of _ _ "js ''shop/x/Y''" "[Object 2]"] p by simp
  have "byPath (snd (projr (buildIndex (exampleHeap, Present exampleJson)))) (js ''amenity/cafe/Foo'') =
      Some [Object 0, Object 1]"
    by code_simp
  then have p0: "byPath idx (js ''amenity/cafe/Foo'') = Some [Object 0, Object 1]"
    by (simp add: eq)
  have 3: "item_tkv (h' 0) = JString (js ''amenity/cafe/Foo'')"
    using name_index_aliasing[OF pt eq, of _ _ "js ''amenity/cafe/Foo''" "[Object 0, Object 1]"] p0
    by simp
  from pt eq 1 2 p 3 show ?thesis by blast
qed

section \<open>The query-string codec\<close>

text \<open>
  Claim C2, as amended. For every parameter map whose keys consist of characters that
  \<^verbatim>\<open>encodeURIComponent\<close> leaves as they are (letters, digits and \<^verbatim>\<open>- _ . ! ~ * ' ( )\<close>),
  none of whose keys is \<^verbatim>\<open>__proto__\<close>, and whose values are well-formed strings,
  \<^verbatim>\<open>qsString\<close> returns a string, \<^verbatim>\<open>stringQs\<close> decodes that string, and the decoded
  object has the keys and values of the map. \<^verbatim>\<open>stringQs\<close> stores keys as they stand in
  the string, so a key that \<^verbatim>\<open>encodeURIComponent\<close> changes comes back changed; and its
  assignment creates no property under the key \<^verbatim>\<open>__proto__\<close>.
\<close>

theorem qs_roundtrip:
  assumes "distinct (map fst p)"
    and "list_all (\<lambda>e. list_all uriUnescaped (fst e) \<and> isWellFormed (snd e)) p"
    and "js ''__proto__'' \<notin> fst ` set p"
  shows "\<exists>s ob. qsString (paramsOf p) = Inr s \<and> stringQs s = Inr ob \<and>
           map_of ob = map_of (paramsOf p) \<and> distinct (map fst ob)"
proof -
  let ?ob = "paramsOf p"
  let ?F = "\<lambda>k. JString (toString (getProp ?ob k))"
  let ?R = "foldl (\<lambda>a k. setProp (encoded k) (?F k) a) [] (objectKeys ?ob)"
  have keys: "fst ` set ?ob = fst ` set p" by (force simp: paramsOf_def)
  have un: "list_all uriUnescaped k" if "k \<in> fst ` set p" for k
    using that assms(2) by (auto simp: list_all_iff)
  have "wellFormedObj ?ob"
    using assms(2) by (auto simp: wellFormedObj_def paramsOf_def list_all_iff toString_def
        intro: unescaped_wellFormed)
  then obtain s where s: "qsString ?ob = Inr s" using qsString_total by blast
  have r: "stringQs s = Inr ?R" by (rule stringQs_qsString[OF s])
  have "encoded k \<noteq> js ''__proto__''" if "k \<in> fst ` set p" for k
  proof -
    have "encoded k = k" using un[OF that] by (rule encoded_unescaped)
    moreover have "k \<noteq> js ''__proto__''" using that assms(3) by blast
    ultimately show ?thesis by simp
  qed
  then have "\<forall>k\<in>set (objectKeys ?ob). encoded k \<noteq> js ''__proto__''"
    by (simp add: set_objectKeys keys)
  then have f: "filter (\<lambda>k. encoded k \<noteq> js ''__proto__'') (objectKeys ?ob) = objectKeys ?ob"
    by (simp only: filter_True)
  have "map_of ?R u = map_of ?ob u" for u
  proof -
    have "\<forall>k\<in>set (objectKeys ?ob). encoded k = u \<longrightarrow> k = u"
      using un by (auto simp: set_objectKeys keys encoded_unescaped)
    then have "map_of (rev (map (\<lambda>k. (encoded k, ?F k)) (objectKeys ?ob))) u =
        (if u \<in> set (objectKeys ?ob) \<and> encoded u = u then Some (?F u) else None)"
      by (rule map_of_rev_keyed)
    then have m: "map_of ?R u =
        (if u \<in> set (objectKeys ?ob) \<and> encoded u = u then Some (?F u) else None)"
      by (simp add: map_of_foldl_setProp f)
    show ?thesis
    proof (cases "u \<in> fst ` set p")
      case True
      then obtain v where v: "(u, v) \<in> set p" by force
      have g: "getProp ?ob u = JString v" by (rule getProp_paramsOf[OF v assms(1)])
      have "(u, JString v) \<in> set ?ob" using v by (force simp: paramsOf_def)
      moreover have "distinct (map fst ?ob)" using assms(1) by (simp add: paramsOf_def comp_def)
      ultimately have 1: "map_of ?ob u = Some (JString v)" by simp
      have 2: "?F u = JString v" by (simp add: g toString_def)
      have "map_of ?R u = Some (?F u)"
        using True un[OF True] by (simp add: m set_objectKeys keys encoded_unescaped)
      then show ?thesis by (simp only: 1 2)
    next
      case False
      then have "map_of ?ob u = None" by (simp add: map_of_eq_None_iff keys)
      then show ?thesis using False by (simp add: m set_objectKeys keys)
    qed
  qed
  then have "map_of ?R = map_of ?ob" by (rule ext)
  moreover have "distinct (map fst ?R)" by (rule distinct_foldl_setProp) simp
  ultimately show ?thesis using s r by blast
qed

text \<open>
  The claim as stated fails for the map \<^verbatim>\<open>{"a b": "x"}\<close>, which holds no \<^verbatim>\<open>=\<close> and no
  \<^verbatim>\<open>&\<close>: it encodes to \<^verbatim>\<open>a%20b=x\<close>, which decodes to \<^verbatim>\<open>{"a%20b": "x"}\<close>. It also
  fails for a map with the own key \<^verbatim>\<open>__proto__\<close>: it encodes to \<^verbatim>\<open>__proto__=x\<close>, which
  decodes to the empty object.
\<close>

theorem qs_roundtrip_counterexample:
  "0x3D \<notin> set (js ''a b'') \<and> 0x26 \<notin> set (js ''a b'') \<and> 0x3D \<notin> set (js ''x'') \<and> 0x26 \<notin> set (js ''x'') \<and>
   bind_result (qsString (paramsOf [(js ''a b'', js ''x'')])) stringQs =
     Inr (paramsOf [(js ''a%20b'', js ''x'')]) \<and>
   getProp (paramsOf [(js ''a%20b'', js ''x'')]) (js ''a b'') = JUndefined \<and>
   0x3D \<notin> set (js ''__proto__'') \<and> 0x26 \<notin> set (js ''__proto__'') \<and>
   qsString (paramsOf [(js ''__proto__'', js ''x'')]) = Inr (js ''__proto__=x'') \<and>
   stringQs (js ''__proto__=x'') = Inr []"
  by code_simp

theorem qs_roundtrip_witness:
  "distinct (map fst [(js ''t'', js ''brands''), (js ''v'', [0x43, 0x61, 0x66, 0xE9])]) \<and>
   list_all (\<lambda>e. list_all uriUnescaped (fst e) \<and> isWellFormed (snd e))
     [(js ''t'', js ''brands''), (js ''v'', [0x43, 0x61, 0x66, 0xE9])] \<and>
   js ''__proto__'' \<notin> fst ` set [(js ''t'', js ''brands''), (js ''v'', [0x43, 0x61, 0x66, 0xE9 :: jschar])] \<and>
   qsString (paramsOf [(js ''t'', js ''brands''), (js ''v'', [0x43, 0x61, 0x66, 0xE9])]) =
     Inr (js ''t=brands&v=Caf%C3%A9'') \<and>
   (\<exists>ob. stringQs (js ''t=brands&v=Caf%C3%A9'') = Inr ob \<and>
      map_of ob = map_of (paramsOf [(js ''t'', js ''brands''), (js ''v'', [0x43, 0x61, 0x66, 0xE9])]))"
proof -
  let ?p = "[(js ''t'', js ''brands''), (js ''v'', [0x43, 0x61, 0x66, 0xE9 :: jschar])]"
  have d: "distinct (map fst ?p)" by code_simp
  have w: "list_all (\<lambda>e. list_all uriUnescaped (fst e) \<and> isWellFormed (snd e)) ?p" by code_simp
  have n: "js ''__proto__'' \<notin> fst ` set ?p" by code_simp
  have q: "qsString (paramsOf ?p) = Inr (js ''t=brands&v=Caf%C3%A9'')" by code_simp
  obtain s ob where "qsString (paramsOf ?p) = Inr s" "stringQs s = Inr ob"
    "map_of ob = map_of (paramsOf ?p)"
    using qs_roundtrip[OF d w n] by blast
  then have "\<exists>ob. stringQs (js ''t=brands&v=Caf%C3%A9'') = Inr ob \<and> map_of ob = map_of (paramsOf ?p)"
    using q by auto
  with d w n q show ?thesis by blast
qed

text \<open>
  Claim C9. \<^verbatim>\<open>stringQs\<close> does not decode keys: every key of its result is the text
  before the \<^verbatim>\<open>=\<close> of a segment with one \<^verbatim>\<open>=\<close>, as it stands in the string (and every
  such text is a key of the result, except \<^verbatim>\<open>__proto__\<close>); each value is the
  \<^verbatim>\<open>decodeURIComponent\<close> of the text after the \<^verbatim>\<open>=\<close> of such a segment. So whenever
  \<^verbatim>\<open>qsString\<close> encodes an object, \<^verbatim>\<open>stringQs\<close> decodes the result to an object whose
  keys are the encoded keys of the first: it holds each entry under the encoded key, and
  for a key with a character that \<^verbatim>\<open>encodeURIComponent\<close> escapes the encoded key differs
  from the key. Such a key does not survive: what the result holds under it, if anything,
  is the entry of another key.
\<close>

theorem stringQs_keys_raw:
  "(stringQs raw = Inr ob \<longrightarrow>
      (k \<in> fst ` set ob \<longleftrightarrow>
         k \<noteq> js ''__proto__'' \<and>
         (\<exists>v. keyValueSegment (splitOn 0x26 (dropWhile (\<lambda>c. c = 0x3F \<or> c = 0x23) raw)) k v)) \<and>
      ((k, x) \<in> set ob \<longrightarrow>
         (\<exists>v s. keyValueSegment (splitOn 0x26 (dropWhile (\<lambda>c. c = 0x3F \<or> c = 0x23) raw)) k v \<and>
                decodeURIComponent v = Inr s \<and> x = JString s))) \<and>
   (qsString source = Inr str \<longrightarrow>
      (\<exists>ob'. stringQs str = Inr ob' \<and>
         (\<forall>key'\<in>fst ` set ob'. \<exists>key\<in>fst ` set source.
            encodeURIComponent (JString key) = Inr key') \<and>
         (\<forall>key\<in>fst ` set source. \<exists>e.
            encodeURIComponent (JString key) = Inr e \<and>
            (e \<noteq> js ''__proto__'' \<longrightarrow> (e, JString (toString (getProp source key))) \<in> set ob') \<and>
            (\<not> list_all uriUnescaped key \<longrightarrow> e \<noteq> key \<and> e \<noteq> js ''__proto__''))))"
proof (intro conjI impI)
  assume a: "stringQs raw = Inr ob"
  let ?segs = "splitOn 0x26 (dropWhile (\<lambda>c. c = 0x3F \<or> c = 0x23) raw)"
  have r: "reduce_result stringQs_pair ?segs [] = Inr ob"
    using a by (simp add: stringQs_def)
  have "fst ` set ob =
      fst ` set ([] :: obj) \<union> {k. k \<noteq> js ''__proto__'' \<and> (\<exists>v. keyValueSegment ?segs k v)}"
    by (rule reduce_keys[OF r]) simp
  then show "k \<in> fst ` set ob \<longleftrightarrow> k \<noteq> js ''__proto__'' \<and> (\<exists>v. keyValueSegment ?segs k v)"
    by simp
  show "\<exists>v s. keyValueSegment ?segs k v \<and> decodeURIComponent v = Inr s \<and> x = JString s"
    if "(k, x) \<in> set ob"
    using reduce_values[OF r that] by simp
next
  assume q: "qsString source = Inr str"
  from stringQs_qsString_entries[OF q] obtain ob' where r: "stringQs str = Inr ob'"
    and "distinct (map fst ob')"
    and ks: "fst ` set ob' = encoded ` fst ` set source - {js ''__proto__''}"
    and m: "\<forall>k\<in>fst ` set source. encoded k \<noteq> js ''__proto__'' \<longrightarrow>
        map_of ob' (encoded k) = Some (JString (toString (getProp source k)))"
    by (elim exE conjE) (rule that)
  have enc: "\<exists>e. uriEncode key = Inr e" if "key \<in> fst ` set source" for key
    using qsString_keys_encodable[OF q that] .
  have 1: "\<exists>key\<in>fst ` set source. encodeURIComponent (JString key) = Inr key'"
    if "key' \<in> fst ` set ob'" for key'
  proof -
    from that ks obtain key where key: "key \<in> fst ` set source" "key' = encoded key"
      by auto
    obtain e where e: "uriEncode key = Inr e" using enc[OF key(1)] by blast
    then have "encodeURIComponent (JString key) = Inr key'"
      by (simp add: encodeURIComponent_def toString_def key(2) encoded_Inr)
    with key(1) show ?thesis by blast
  qed
  have 2: "\<exists>e. encodeURIComponent (JString key) = Inr e \<and>
      (e \<noteq> js ''__proto__'' \<longrightarrow> (e, JString (toString (getProp source key))) \<in> set ob') \<and>
      (\<not> list_all uriUnescaped key \<longrightarrow> e \<noteq> key \<and> e \<noteq> js ''__proto__'')"
    if key: "key \<in> fst ` set source" for key
  proof -
    obtain e where e: "uriEncode key = Inr e" using enc[OF key] by blast
    have a: "encodeURIComponent (JString key) = Inr e"
      using e by (simp add: encodeURIComponent_def toString_def)
    have b: "(e, JString (toString (getProp source key))) \<in> set ob'" if "e \<noteq> js ''__proto__''"
    proof -
      have "encoded key \<noteq> js ''__proto__'' \<longrightarrow>
          map_of ob' (encoded key) = Some (JString (toString (getProp source key)))"
        by (rule bspec[OF m key])
      then have "map_of ob' (encoded key) = Some (JString (toString (getProp source key)))"
        using that by (simp add: encoded_Inr[OF e])
      then have "(encoded key, JString (toString (getProp source key))) \<in> set ob'"
        by (rule map_of_SomeD)
      then show ?thesis by (simp add: encoded_Inr[OF e])
    qed
    have c: "e \<noteq> key \<and> e \<noteq> js ''__proto__''" if "\<not> list_all uriUnescaped key"
      using uriEncode_escaped[OF e that] by simp
    from a b c show ?thesis by blast
  qed
  show "\<exists>ob'. stringQs str = Inr ob' \<and>
         (\<forall>key'\<in>fst ` set ob'. \<exists>key\<in>fst ` set source.
            encodeURIComponent (JString key) = Inr key') \<and>
         (\<forall>key\<in>fst ` set source. \<exists>e.
            encodeURIComponent (JString key) = Inr e \<and>
            (e \<noteq> js ''__proto__'' \<longrightarrow> (e, JString (toString (getProp source key))) \<in> set ob') \<and>
            (\<not> list_all uriUnescaped key \<longrightarrow> e \<noteq> key \<and> e \<noteq> js ''__proto__''))"
  proof (rule exI[of _ ob'], intro conjI ballI)
    show "stringQs str = Inr ob'" by (rule r)
  next
    fix key'
    assume "key' \<in> fst ` set ob'"
    then show "\<exists>key\<in>fst ` set source. encodeURIComponent (JString key) = Inr key'"
      by (rule 1)
  next
    fix key
    assume "key \<in> fst ` set source"
    then show "\<exists>e. encodeURIComponent (JString key) = Inr e \<and>
        (e \<noteq> js ''__proto__'' \<longrightarrow> (e, JString (toString (getProp source key))) \<in> set ob') \<and>
        (\<not> list_all uriUnescaped key \<longrightarrow> e \<noteq> key \<and> e \<noteq> js ''__proto__'')"
      by (rule 2)
  qed
qed

theorem stringQs_keys_raw_witness:
  "stringQs (js ''?a%20b=c%20d&x'') = Inr [(js ''a%20b'', JString (js ''c d''))] \<and>
   keyValueSegment (splitOn 0x26 (dropWhile (\<lambda>c. c = 0x3F \<or> c = 0x23) (js ''?a%20b=c%20d&x'')))
     (js ''a%20b'') (js ''c%20d'') \<and>
   js ''a%20b'' \<in> fst ` set [(js ''a%20b'', JString (js ''c d''))] \<and>
   \<not> list_all uriUnescaped (js ''%20'') \<and>
   qsString [(js '' '', JString (js ''y'')), (js ''%20'', JString (js ''x''))] =
     Inr (js ''%20=y&%2520=x'') \<and>
   stringQs (js ''%20=y&%2520=x'') =
     Inr [(js ''%20'', JString (js ''y'')), (js ''%2520'', JString (js ''x''))] \<and>
   encodeURIComponent (JString (js ''%20'')) = Inr (js ''%2520'') \<and>
   (js ''%2520'', JString (js ''x'')) \<in>
     set [(js ''%20'', JString (js ''y'')), (js ''%2520'', JString (js ''x''))]"
proof -
  let ?raw = "js ''?a%20b=c%20d&x''"
  let ?ob = "[(js ''a%20b'', JString (js ''c d''))]"
  let ?src = "[(js '' '', JString (js ''y'')), (js ''%20'', JString (js ''x''))]"
  let ?str = "js ''%20=y&%2520=x''"
  let ?res = "[(js ''%20'', JString (js ''y'')), (js ''%2520'', JString (js ''x''))]"
  note inst = stringQs_keys_raw[of ?raw ?ob "js ''a%20b''" "JString (js ''c d'')" ?src ?str]
  have 1: "stringQs ?raw = Inr ?ob"
    by code_simp
  have 2: "keyValueSegment (splitOn 0x26 (dropWhile (\<lambda>c. c = 0x3F \<or> c = 0x23) ?raw))
     (js ''a%20b'') (js ''c%20d'')"
    by code_simp
  have p: "js ''a%20b'' \<noteq> js ''__proto__''" by code_simp
  have "js ''a%20b'' \<in> fst ` set ?ob \<longleftrightarrow>
      js ''a%20b'' \<noteq> js ''__proto__'' \<and>
      (\<exists>v. keyValueSegment (splitOn 0x26 (dropWhile (\<lambda>c. c = 0x3F \<or> c = 0x23) ?raw))
         (js ''a%20b'') v)"
    by (rule conjunct1[OF mp[OF conjunct1[OF inst] 1]])
  then have 3: "js ''a%20b'' \<in> fst ` set ?ob"
    using p 2 by blast
  have 4: "\<not> list_all uriUnescaped (js ''%20'')" by code_simp
  have 5: "qsString ?src = Inr ?str" by code_simp
  have 6: "stringQs ?str = Inr ?res" by code_simp
  have 7: "encodeURIComponent (JString (js ''%20'')) = Inr (js ''%2520'')" by code_simp
  have k: "js ''%20'' \<in> fst ` set ?src" by simp
  have g: "toString (getProp ?src (js ''%20'')) = js ''x''" by code_simp
  have n: "js ''%2520'' \<noteq> js ''__proto__''" by code_simp
  from mp[OF conjunct2[OF inst] 5] obtain ob' where o: "stringQs ?str = Inr ob'"
    and e: "\<forall>key\<in>fst ` set ?src. \<exists>e.
            encodeURIComponent (JString key) = Inr e \<and>
            (e \<noteq> js ''__proto__'' \<longrightarrow> (e, JString (toString (getProp ?src key))) \<in> set ob') \<and>
            (\<not> list_all uriUnescaped key \<longrightarrow> e \<noteq> key \<and> e \<noteq> js ''__proto__'')"
    by (elim exE conjE) (rule that)
  have ob': "ob' = ?res" using o 6 by simp
  from bspec[OF e k] obtain e' where e': "encodeURIComponent (JString (js ''%20'')) = Inr e'"
    "e' \<noteq> js ''__proto__'' \<longrightarrow> (e', JString (toString (getProp ?src (js ''%20'')))) \<in> set ob'"
    by (elim exE conjE) (rule that)
  have "e' = js ''%2520''" using e'(1) 7 by simp
  then have 8: "(js ''%2520'', JString (js ''x'')) \<in> set ?res"
    using e'(2) n by (simp only: ob' g) simp
  from 1 2 3 4 5 6 7 8 show ?thesis by (intro conjI)
qed

section \<open>The inbound effect\<close>

text \<open>
  Claim C3, as amended. When the decoded query holds a non-empty \<^verbatim>\<open>id\<close>, the index has
  loaded, \<open>byId\<close> holds an item under that id, the item's \<^verbatim>\<open>tkv\<close> has at least three
  parts between \<^verbatim>\<open>/\<close>, and the strings that the effect encodes again are well-formed
  (the three parts, the other entries of the query, the stored parameters), the effect
  stores new state: the parameters hold the three parts under \<^verbatim>\<open>t\<close>, \<^verbatim>\<open>k\<close> and
  \<^verbatim>\<open>v\<close> and hold no \<^verbatim>\<open>id\<close>, and the hash is \<^verbatim>\<open>#\<close> followed by the id.
\<close>

theorem inbound_resolves_id:
  assumes q: "stringQs (search loc) = Inr q"
    and ident: "getProp q (js ''id'') = JString itemID" "itemID \<noteq> []"
    and item: "byId idx itemID = Some a" "item_tkv (h a) = JString tkv"
    and parts: "splitOn 0x2F tkv = t # k # v # rest"
    and wf: "isWellFormed t" "isWellFormed k" "isWellFormed v"
      "wellFormedObj (deleteProp (js ''id'') q)" "wellFormedObj params"
  shows "\<exists>p. inbound loc False h idx params hashState = Inr (True, p, js ''#'' @ itemID) \<and>
             getProp p (js ''t'') = JString t \<and> getProp p (js ''k'') = JString k \<and>
             getProp p (js ''v'') = JString v \<and> js ''id'' \<notin> fst ` set p"
proof -
  have ne: "js ''t'' \<noteq> js ''k''" "js ''t'' \<noteq> js ''v''" "js ''t'' \<noteq> js ''id''"
    "js ''k'' \<noteq> js ''v''" "js ''k'' \<noteq> js ''id''" "js ''v'' \<noteq> js ''id''"
    using tkvid_distinct by simp_all
  define p4 where "p4 = deleteProp (js ''id'')
      (setProp (js ''v'') (JString v) (setProp (js ''k'') (JString k) (setProp (js ''t'') (JString t) q)))"
  have p4': "p4 = setProp (js ''v'') (JString v) (setProp (js ''k'') (JString k)
      (setProp (js ''t'') (JString t) (deleteProp (js ''id'') q)))"
    using ne by (simp add: p4_def deleteProp_setProp)
  have kw: "isWellFormed (js ''t'')" "isWellFormed (js ''k'')" "isWellFormed (js ''v'')"
    using tkvid_plain by (simp_all add: unescaped_wellFormed)
  have "wellFormedObj (setProp (js ''t'') (JString t) (deleteProp (js ''id'') q))"
    by (simp add: wellFormedObj_setProp wf(1,4) kw(1) toString_def)
  then have "wellFormedObj (setProp (js ''k'') (JString k)
      (setProp (js ''t'') (JString t) (deleteProp (js ''id'') q)))"
    by (simp add: wellFormedObj_setProp wf(2) kw(2) toString_def)
  then have wf4: "wellFormedObj p4"
    unfolding p4' by (simp add: wellFormedObj_setProp wf(3) kw(3) toString_def)
  obtain ns where ns: "qsString p4 = Inr ns" using qsString_total[OF wf4] by blast
  obtain qo where qo: "qsString params = Inr qo" using qsString_total[OF wf(5)] by blast
  have differ: "js ''?'' @ qo \<noteq> ns"
    using qsString_head[OF ns] by (auto simp: js_chars)
  obtain r where r: "stringQs ns = Inr r" using stringQs_qsString[OF ns] by blast
  have res: "resolveItem h idx loc q itemID = Inr (js ''#'' @ itemID, ns)"
    by (simp add: resolveItem_def item parts element_def Let_def p4_def[symmetric] ns map_result_Inr)
  have run: "inbound loc False h idx params hashState = Inr (True, r, js ''#'' @ itemID)"
    using differ
    by (simp add: inbound_def q bind_result_Inr ident truthy_def toString_def res qo r
        map_result_Inr Let_def)
  have keys: "fst ` set p4 = insert (js ''v'') (insert (js ''k'') (insert (js ''t'')
      (fst ` set q - {js ''id''})))"
    by (simp add: p4' keys_setProp keys_deleteProp tkvid_ordinary)
  have g: "getProp p4 (js ''t'') = JString t" "getProp p4 (js ''k'') = JString k"
    "getProp p4 (js ''v'') = JString v"
    using ne by (simp_all add: p4_def getProp_deleteProp getProp_setProp tkvid_ordinary)
  have "map_of r (js ''t'') = Some (JString t)"
    using stringQs_qsString_lookup[OF wf4 ns r tkvid_plain(1) tkvid_ordinary(1)]
    by (simp add: keys g toString_def)
  moreover have "map_of r (js ''k'') = Some (JString k)"
    using stringQs_qsString_lookup[OF wf4 ns r tkvid_plain(2) tkvid_ordinary(2)]
    by (simp add: keys g toString_def)
  moreover have "map_of r (js ''v'') = Some (JString v)"
    using stringQs_qsString_lookup[OF wf4 ns r tkvid_plain(3) tkvid_ordinary(3)]
    by (simp add: keys g toString_def)
  moreover have "map_of r (js ''id'') = None"
    using stringQs_qsString_lookup[OF wf4 ns r tkvid_plain(4) tkvid_ordinary(4)] ne
    by (simp add: keys)
  ultimately have "getProp r (js ''t'') = JString t \<and> getProp r (js ''k'') = JString k \<and>
      getProp r (js ''v'') = JString v \<and> js ''id'' \<notin> fst ` set r"
    by (simp add: getProp_def map_of_eq_None_iff)
  with run show ?thesis by blast
qed

text \<open>
  The claim as stated fails for the query \<^verbatim>\<open>?id=\<close>: the decoded query holds the key
  \<^verbatim>\<open>id\<close>, and \<open>byId\<close> holds an item under the empty id, but the empty string is not
  truthy, so the effect looks nothing up: the parameters keep \<^verbatim>\<open>id\<close>, get no \<^verbatim>\<open>t\<close>,
  \<^verbatim>\<open>k\<close>, \<^verbatim>\<open>v\<close>, and the hash stays the location's.
\<close>

theorem inbound_resolves_id_counterexample:
  "stringQs (js ''?id='') = Inr [(js ''id'', JString [])] \<and>
   byId \<lparr>byPath = [js ''amenity/cafe/Foo'' \<mapsto> [Object 0]], byId = [[] \<mapsto> 0], meta = ()\<rparr> [] = Some 0 \<and>
   item_tkv ((\<lambda>a. \<lparr>item_id = JString [], item_tkv = JString (js ''amenity/cafe/Foo''),
      item_rest = ()\<rparr>) 0) = JString (js ''amenity/cafe/Foo'') \<and>
   inbound \<lparr>pathname = js ''/'', search = js ''?id='', hash = []\<rparr> False
     (\<lambda>a. \<lparr>item_id = JString [], item_tkv = JString (js ''amenity/cafe/Foo''), item_rest = ()\<rparr>)
     \<lparr>byPath = [js ''amenity/cafe/Foo'' \<mapsto> [Object 0]], byId = [[] \<mapsto> 0], meta = ()\<rparr>
     [] [] =
     Inr (True, [(js ''id'', JString [])], [])"
  by code_simp

theorem inbound_resolves_id_witness:
  "stringQs (js ''?id=a2'') = Inr [(js ''id'', JString (js ''a2''))] \<and>
   splitOn 0x2F (js ''amenity/cafe/Foo'') = [js ''amenity'', js ''cafe'', js ''Foo''] \<and>
   (\<exists>h idx. buildIndex (exampleHeap, Present exampleJson) = Inr (h, idx) \<and>
      byId idx (js ''a2'') = Some 1 \<and>
      item_tkv (h 1) = JString (js ''amenity/cafe/Foo'') \<and>
      (\<exists>p. inbound \<lparr>pathname = js ''/'', search = js ''?id=a2'', hash = []\<rparr> False h idx [] [] =
             Inr (True, p, js ''#a2'') \<and>
           getProp p (js ''t'') = JString (js ''amenity'') \<and>
           getProp p (js ''k'') = JString (js ''cafe'') \<and>
           getProp p (js ''v'') = JString (js ''Foo'') \<and>
           js ''id'' \<notin> fst ` set p))"
proof -
  let ?loc = "\<lparr>pathname = js ''/'', search = js ''?id=a2'', hash = []\<rparr>"
  let ?q = "[(js ''id'', JString (js ''a2''))]"
  have "allObjects (nsi exampleJson)" by code_simp
  then obtain h idx where b: "buildIndex (exampleHeap, Present exampleJson) = Inr (h, idx)"
    using built_total by blast
  have 1: "stringQs (js ''?id=a2'') = Inr ?q" by code_simp
  have q: "stringQs (search ?loc) = Inr ?q" by code_simp
  have i: "getProp ?q (js ''id'') = JString (js ''a2'')" by code_simp
  have n: "js ''a2'' \<noteq> []" by (simp add: js_def)
  have "byId (snd (projr (buildIndex (exampleHeap, Present exampleJson)))) (js ''a2'') = Some 1"
    by code_simp
  then have 2: "byId idx (js ''a2'') = Some 1" by (simp add: b)
  have "item_tkv (fst (projr (buildIndex (exampleHeap, Present exampleJson))) 1) =
      JString (js ''amenity/cafe/Foo'')"
    by code_simp
  then have 3: "item_tkv (h 1) = JString (js ''amenity/cafe/Foo'')" by (simp add: b)
  have 4: "splitOn 0x2F (js ''amenity/cafe/Foo'') = [js ''amenity'', js ''cafe'', js ''Foo'']"
    by code_simp
  have w: "isWellFormed (js ''amenity'')" "isWellFormed (js ''cafe'')" "isWellFormed (js ''Foo'')"
    "wellFormedObj (deleteProp (js ''id'') ?q)" "wellFormedObj []"
    by code_simp+
  have "\<exists>p. inbound ?loc False h idx [] [] = Inr (True, p, js ''#'' @ js ''a2'') \<and>
        getProp p (js ''t'') = JString (js ''amenity'') \<and>
        getProp p (js ''k'') = JString (js ''cafe'') \<and>
        getProp p (js ''v'') = JString (js ''Foo'') \<and>
        js ''id'' \<notin> fst ` set p"
    by (rule inbound_resolves_id[where loc = ?loc and h = h and idx = idx, OF q i n 2 3 4 w])
  moreover have "js ''#'' @ js ''a2'' = js ''#a2''" by (simp add: js_def)
  ultimately show ?thesis using 1 b 2 3 4 by auto
qed

end
